theory Spec2Isabelle
  imports Main
begin

section \<open>The order book of stock\_trading\_engine.py\<close>

text \<open>
  An order is the six-element array \<open>[order_type, ticker, quantity, price, order_id,
  order_sequence]\<close> that \<open>add_order\<close> builds; the fields keep the positions' names.
  Quantities, identifiers and sequence numbers are Python integers. Prices are numbers on
  which the engine only ever uses \<open>==\<close>, \<open><\<close>, \<open>>\<close> and \<open>>=\<close>; they are taken
  from the integers (a price in ticks). An order lives in exactly one resting list
  (\<open>add_order\<close> creates a fresh array for each submission), so lists of order values
  describe the book.
\<close>

datatype error = IndexError

record order =
  order_type :: int
  ticker :: string
  quantity :: int
  price :: int
  order_id :: int
  sequence :: int

text \<open>A match record is \<open>[buy_order_id, sell_order_id, ticker, matched quantity,
  execution price]\<close>.\<close>

record match_record =
  buy_order_id :: int
  sell_order_id :: int
  match_ticker :: string
  match_quantity :: int
  execution_price :: int

text \<open>The order book array \<open>[ticker_symbols, buy_orders, sell_orders, ticker_count,
  next_order_id]\<close>. A free slot of \<open>ticker_symbols\<close> holds Python's \<open>None\<close>.\<close>

record order_book =
  ticker_symbols :: "string option list"
  buy_orders :: "order list list"
  sell_orders :: "order list list"
  ticker_count :: nat
  next_order_id :: int

definition BUY :: int where
  "BUY = 1"

definition SELL :: int where
  "SELL = 2"

definition create_order_book :: "nat \<Rightarrow> order_book" where
  "create_order_book num_tickers =
     \<lparr>ticker_symbols = replicate num_tickers None,
      buy_orders = replicate num_tickers [],
      sell_orders = replicate num_tickers [],
      ticker_count = 0,
      next_order_id = 1\<rparr>"

subsection \<open>Ticker registry\<close>

text \<open>The fast path of \<open>get_ticker_index\<close>: the loop \<open>for i in range(ticker_count)\<close>
  over the indices still to visit. Reading \<open>ticker_symbols[i]\<close> beyond the end of the array
  raises.\<close>

fun lookup_ticker :: "string option list \<Rightarrow> string \<Rightarrow> nat list \<Rightarrow> error + nat option" where
  "lookup_ticker syms t [] = Inr None"
| "lookup_ticker syms t (i # is) =
     (if length syms \<le> i then Inl IndexError
      else if syms ! i = Some t then Inr (Some i)
      else lookup_ticker syms t is)"

text \<open>\<open>get_ticker_index\<close> returns the index, or \<open>None\<close> for the source's \<open>-1\<close>, and the
  book as it has left it.\<close>

definition get_ticker_index :: "order_book \<Rightarrow> string \<Rightarrow> error + (nat option \<times> order_book)" where
  "get_ticker_index b t =
     (case lookup_ticker (ticker_symbols b) t [0..<ticker_count b] of
        Inl e \<Rightarrow> Inl e
      | Inr (Some i) \<Rightarrow> Inr (Some i, b)
      | Inr None \<Rightarrow>
          if length (ticker_symbols b) \<le> ticker_count b then Inr (None, b)
          else Inr (Some (ticker_count b),
                    b\<lparr>ticker_symbols := (ticker_symbols b)[ticker_count b := Some t],
                      ticker_count := ticker_count b + 1\<rparr>))"

subsection \<open>Submission\<close>

text \<open>\<open>add_order\<close> reads and writes the module's global \<open>order_sequence\<close>: the model takes
  it as an argument and returns the new value with the result and the book.\<close>

definition add_order ::
    "order_book \<Rightarrow> int \<Rightarrow> int \<Rightarrow> string \<Rightarrow> int \<Rightarrow> int \<Rightarrow> error + (int \<times> order_book \<times> int)" where
  "add_order b order_sequence otype t qty prc =
     (let oid = next_order_id b;
          b1 = b\<lparr>next_order_id := next_order_id b + 1\<rparr>;
          seq1 = order_sequence + 1;
          ord = \<lparr>order_type = otype, ticker = t, quantity = qty, price = prc,
                 order_id = oid, sequence = seq1\<rparr>
      in case get_ticker_index b1 t of
           Inl e \<Rightarrow> Inl e
         | Inr (None, b2) \<Rightarrow> Inr (- 1, b2, seq1)
         | Inr (Some idx, b2) \<Rightarrow>
             if otype = BUY then
               (if length (buy_orders b2) \<le> idx then Inl IndexError
                else Inr (oid,
                          b2\<lparr>buy_orders := (buy_orders b2)[idx := buy_orders b2 ! idx @ [ord]]\<rparr>,
                          seq1))
             else
               (if length (sell_orders b2) \<le> idx then Inl IndexError
                else Inr (oid,
                          b2\<lparr>sell_orders := (sell_orders b2)[idx := sell_orders b2 ! idx @ [ord]]\<rparr>,
                          seq1)))"

subsection \<open>Selecting the best order\<close>

text \<open>The scan of \<open>find_best_order\<close>: \<open>i\<close> is the index \<open>enumerate\<close> gives to the head of
  the orders still to visit. The accumulator is \<open>None\<close> while \<open>best_idx == -1\<close> (then
  \<open>best_price\<close> and \<open>best_seq\<close> are not read, the \<open>or\<close> stops before them) and
  \<open>(best_idx, best_price, best_seq)\<close> afterwards.\<close>

fun scan_best ::
    "nat list \<Rightarrow> (int \<Rightarrow> int \<Rightarrow> bool) \<Rightarrow> (order \<Rightarrow> int) \<Rightarrow> (order \<Rightarrow> int) \<Rightarrow>
     nat \<Rightarrow> order list \<Rightarrow> (nat \<times> int \<times> int) option \<Rightarrow> (nat \<times> int \<times> int) option" where
  "scan_best completed_indices compare_func price_index seq_index i [] best = best"
| "scan_best completed_indices compare_func price_index seq_index i (ord # rest) best =
     (if i \<in> set completed_indices
      then scan_best completed_indices compare_func price_index seq_index (Suc i) rest best
      else
        let current_price = price_index ord; current_seq = seq_index ord
        in scan_best completed_indices compare_func price_index seq_index (Suc i) rest
             (case best of
                None \<Rightarrow> Some (i, current_price, current_seq)
              | Some (best_idx, best_price, best_seq) \<Rightarrow>
                  if compare_func current_price best_price
                     \<or> (current_price = best_price \<and> current_seq < best_seq)
                  then Some (i, current_price, current_seq)
                  else best))"

definition find_best_order ::
    "order list \<Rightarrow> nat list \<Rightarrow> (int \<Rightarrow> int \<Rightarrow> bool) \<Rightarrow> (order \<Rightarrow> int) \<Rightarrow> (order \<Rightarrow> int) \<Rightarrow>
     nat option" where
  "find_best_order orders completed_indices compare_func price_index seq_index =
     map_option fst (scan_best completed_indices compare_func price_index seq_index 0 orders None)"

subsection \<open>The crossing loop of one symbol\<close>

text \<open>The variables of the \<open>while\<close> loop of \<open>match_orders\<close>. The two lists are the book's
  own lists: the loop changes the quantities of their orders in place.\<close>

record crossing =
  c_buy_orders :: "order list"
  c_sell_orders :: "order list"
  completed_buys :: "nat list"
  completed_sells :: "nat list"
  matches :: "match_record list"

text \<open>The branch of the loop body taken when the prices cross, for the selected
  positions: the match is recorded, both quantities fall by the matched quantity, and an
  order whose quantity is now zero is marked completed.\<close>

definition execute_match :: "crossing \<Rightarrow> nat \<Rightarrow> nat \<Rightarrow> crossing" where
  "execute_match st best_buy_idx best_sell_idx =
     (let buy = c_buy_orders st ! best_buy_idx;
          sell = c_sell_orders st ! best_sell_idx;
          mq = min (quantity buy) (quantity sell);
          m = \<lparr>buy_order_id = order_id buy, sell_order_id = order_id sell,
               match_ticker = ticker buy, match_quantity = mq,
               execution_price = price sell\<rparr>;
          buy' = buy\<lparr>quantity := quantity buy - mq\<rparr>;
          sell' = sell\<lparr>quantity := quantity sell - mq\<rparr>
      in \<lparr>c_buy_orders = (c_buy_orders st)[best_buy_idx := buy'],
          c_sell_orders = (c_sell_orders st)[best_sell_idx := sell'],
          completed_buys =
            (if quantity buy' = 0 then completed_buys st @ [best_buy_idx]
             else completed_buys st),
          completed_sells =
            (if quantity sell' = 0 then completed_sells st @ [best_sell_idx]
             else completed_sells st),
          matches = matches st @ [m]\<rparr>)"

text \<open>One run of the loop body. \<open>None\<close> is a \<open>break\<close>; otherwise the value of
  \<open>continue_matching\<close> at the end of the body and the variables.\<close>

definition cross_body :: "crossing \<Rightarrow> (bool \<times> crossing) option" where
  "cross_body st =
     (case find_best_order (c_buy_orders st) (completed_buys st) (\<lambda>x y. x > y) price sequence of
        None \<Rightarrow> None
      | Some best_buy_idx \<Rightarrow>
         (case find_best_order (c_sell_orders st) (completed_sells st) (\<lambda>x y. x < y) price sequence of
            None \<Rightarrow> None
          | Some best_sell_idx \<Rightarrow>
             if price (c_buy_orders st ! best_buy_idx) \<ge> price (c_sell_orders st ! best_sell_idx)
             then Some (True, execute_match st best_buy_idx best_sell_idx)
             else Some (False, st)))"

text \<open>The \<open>while continue_matching and buy_orders and sell_orders\<close> loop.\<close>

function crossing_loop :: "bool \<Rightarrow> crossing \<Rightarrow> crossing" where
  "crossing_loop continue_matching st =
     (if continue_matching \<and> c_buy_orders st \<noteq> [] \<and> c_sell_orders st \<noteq> [] then
        (case cross_body st of
           None \<Rightarrow> st
         | Some (continue_matching', st') \<Rightarrow> crossing_loop continue_matching' st')
      else st)"
  by pat_completeness auto

text \<open>The loop ends because every crossing marks an order completed that was not: the
  number of positions not yet marked falls.\<close>

definition remaining :: "order list \<Rightarrow> nat list \<Rightarrow> nat" where
  "remaining xs c = card ({..<length xs} - set c)"

definition loop_measure :: "bool \<times> crossing \<Rightarrow> nat" where
  "loop_measure = (\<lambda>(c, st).
     2 * (remaining (c_buy_orders st) (completed_buys st)
          + remaining (c_sell_orders st) (completed_sells st))
     + (if c then 1 else 0))"

lemma scan_best_range:
  assumes "scan_best c cmp pi si i xs best = Some (k, p, s)"
    and "\<And>k p s. best = Some (k, p, s) \<Longrightarrow> k < i \<and> k \<notin> set c"
  shows "k < i + length xs \<and> k \<notin> set c"
  using assms
proof (induction xs arbitrary: i best)
  case Nil
  then show ?case by simp
next
  case (Cons x xs)
  show ?case
  proof (cases "i \<in> set c")
    case True
    with Cons.prems have "scan_best c cmp pi si (Suc i) xs best = Some (k, p, s)" by simp
    moreover have "\<And>k p s. best = Some (k, p, s) \<Longrightarrow> k < Suc i \<and> k \<notin> set c"
      using Cons.prems(2) by fastforce
    ultimately show ?thesis using Cons.IH by fastforce
  next
    case False
    define best' where "best' = (case best of
                None \<Rightarrow> Some (i, pi x, si x)
              | Some (best_idx, best_price, best_seq) \<Rightarrow>
                  if cmp (pi x) best_price \<or> (pi x = best_price \<and> si x < best_seq)
                  then Some (i, pi x, si x)
                  else best)"
    from False Cons.prems have "scan_best c cmp pi si (Suc i) xs best' = Some (k, p, s)"
      by (simp add: best'_def Let_def)
    moreover have "\<And>k p s. best' = Some (k, p, s) \<Longrightarrow> k < Suc i \<and> k \<notin> set c"
      using Cons.prems(2) False by (fastforce simp: best'_def split: option.splits if_splits)
    ultimately show ?thesis using Cons.IH by fastforce
  qed
qed

lemma find_best_order_range:
  "find_best_order xs c cmp pi si = Some k \<Longrightarrow> k < length xs \<and> k \<notin> set c"
  using scan_best_range [of c cmp pi si 0 xs None k]
  by (auto simp: find_best_order_def)

lemma remaining_mark:
  "k < length xs \<Longrightarrow> k \<notin> set c \<Longrightarrow> remaining (xs[k := y]) (c @ [k]) < remaining xs c"
  unfolding remaining_def
  by (intro psubset_card_mono) auto

lemma remaining_update: "remaining (xs[k := y]) c = remaining xs c"
  by (simp add: remaining_def)

lemma cross_body_measure:
  assumes "cross_body st = Some (c', st')"
  shows "loop_measure (c', st') < loop_measure (True, st)"
proof -
  from assms obtain bi si where
    bi: "find_best_order (c_buy_orders st) (completed_buys st) (\<lambda>x y. x > y) price sequence = Some bi"
    and si: "find_best_order (c_sell_orders st) (completed_sells st) (\<lambda>x y. x < y) price sequence = Some si"
    by (auto simp: cross_body_def split: option.splits)
  note rb = find_best_order_range [OF bi] and rs = find_best_order_range [OF si]
  show ?thesis
  proof (cases "price (c_sell_orders st ! si) \<le> price (c_buy_orders st ! bi)")
    case False
    with assms bi si show ?thesis
      by (auto simp: cross_body_def loop_measure_def Let_def)
  next
    case True
    define qb where "qb = quantity (c_buy_orders st ! bi)"
    define qs where "qs = quantity (c_sell_orders st ! si)"
    have "qb - min qb qs = 0 \<or> qs - min qb qs = 0" by auto
    with True assms bi si rb rs show ?thesis
      using remaining_mark [of bi "c_buy_orders st" "completed_buys st"]
            remaining_mark [of si "c_sell_orders st" "completed_sells st"]
      by (auto simp: cross_body_def execute_match_def loop_measure_def Let_def
          remaining_update qb_def qs_def split: if_splits)
  qed
qed

termination crossing_loop
  by (relation "measure loop_measure") (auto dest: cross_body_measure)

declare crossing_loop.simps [simp del]

subsection \<open>The matching pass\<close>

text \<open>The list comprehension \<open>[o for i, o in enumerate(orders) if i not in completed]\<close>.\<close>

definition compact :: "order list \<Rightarrow> nat list \<Rightarrow> order list" where
  "compact orders completed =
     map snd (filter (\<lambda>(i, ord). i \<notin> set completed) (enumerate 0 orders))"

text \<open>The body of \<open>for ticker_idx in range(ticker_count)\<close>, on the book and the list of
  matches so far. When no buy was completed the book keeps its list, whose orders the loop
  has changed in place; otherwise the slot gets the compacted list. The same for the sells.\<close>

definition match_slot ::
    "order_book \<times> match_record list \<Rightarrow> nat \<Rightarrow> error + (order_book \<times> match_record list)" where
  "match_slot s ticker_idx =
     (case s of (b, ms) \<Rightarrow>
        if length (ticker_symbols b) \<le> ticker_idx then Inl IndexError
        else if ticker_symbols b ! ticker_idx = None then Inr (b, ms)
        else if length (buy_orders b) \<le> ticker_idx then Inl IndexError
        else if length (sell_orders b) \<le> ticker_idx then Inl IndexError
        else if buy_orders b ! ticker_idx = [] \<or> sell_orders b ! ticker_idx = [] then Inr (b, ms)
        else
          (let st = crossing_loop True
                      \<lparr>c_buy_orders = buy_orders b ! ticker_idx,
                       c_sell_orders = sell_orders b ! ticker_idx,
                       completed_buys = [], completed_sells = [], matches = ms\<rparr>;
               new_buys = (if completed_buys st \<noteq> []
                           then compact (c_buy_orders st) (completed_buys st)
                           else c_buy_orders st);
               new_sells = (if completed_sells st \<noteq> []
                            then compact (c_sell_orders st) (completed_sells st)
                            else c_sell_orders st)
           in Inr (b\<lparr>buy_orders := (buy_orders b)[ticker_idx := new_buys],
                     sell_orders := (sell_orders b)[ticker_idx := new_sells]\<rparr>,
                   matches st)))"

fun match_slots ::
    "nat list \<Rightarrow> order_book \<times> match_record list \<Rightarrow> error + (order_book \<times> match_record list)" where
  "match_slots [] s = Inr s"
| "match_slots (ticker_idx # rest) s =
     (case match_slot s ticker_idx of
        Inl e \<Rightarrow> Inl e
      | Inr s' \<Rightarrow> match_slots rest s')"

text \<open>\<open>match_orders\<close> returns the list of matches; the model returns the book with it.\<close>

definition match_orders :: "order_book \<Rightarrow> error + (match_record list \<times> order_book)" where
  "match_orders b =
     (case match_slots [0..<ticker_count b] (b, []) of
        Inl e \<Rightarrow> Inl e
      | Inr (b', ms) \<Rightarrow> Inr (ms, b'))"

subsection \<open>Books the engine builds\<close>

text \<open>\<open>create_order_book\<close> allocates the three arrays with one length, and nothing
  changes a length afterwards; the count of registered tickers stays within it.\<close>

definition wf_book :: "order_book \<Rightarrow> bool" where
  "wf_book b \<longleftrightarrow>
     ticker_count b \<le> length (ticker_symbols b)
     \<and> length (buy_orders b) = length (ticker_symbols b)
     \<and> length (sell_orders b) = length (ticker_symbols b)"

text \<open>All the orders resting in a book, buys first.\<close>

definition resting_orders :: "order_book \<Rightarrow> order list" where
  "resting_orders b = concat (buy_orders b) @ concat (sell_orders b)"

subsection \<open>Notions used in the proofs\<close>

definition best_ok ::
  "order list \<Rightarrow> nat list \<Rightarrow> (int \<Rightarrow> int \<Rightarrow> bool) \<Rightarrow> (order \<Rightarrow> int) \<Rightarrow> (order \<Rightarrow> int) \<Rightarrow>
   nat \<Rightarrow> (nat \<times> int \<times> int) option \<Rightarrow> bool" where
  "best_ok all c cmp pi si n best =
     (case best of
        None \<Rightarrow> \<forall>j<n. j \<in> set c
      | Some (k, p, s) \<Rightarrow>
          k < n \<and> k \<notin> set c \<and> p = pi (all ! k) \<and> s = si (all ! k)
          \<and> (\<forall>j<n. j \<notin> set c \<longrightarrow>
                cmp p (pi (all ! j)) \<or> (p = pi (all ! j) \<and> s \<le> si (all ! j))))"

definition settled :: "crossing \<Rightarrow> bool" where
  "settled st \<longleftrightarrow>
     c_buy_orders st = [] \<or> c_sell_orders st = []
     \<or> cross_body st = None \<or> cross_body st = Some (False, st)"

definition best_limit :: "order list \<Rightarrow> nat list \<Rightarrow> (int \<Rightarrow> int \<Rightarrow> bool) \<Rightarrow> int option" where
  "best_limit xs c cmp = map_option (fst \<circ> snd) (scan_best c cmp price sequence 0 xs None)"

definition blank :: "order \<Rightarrow> order" where
  "blank ord = ord\<lparr>quantity := 0\<rparr>"

definition made_from :: "order \<Rightarrow> order \<Rightarrow> match_record \<Rightarrow> bool" where
  "made_from bo so m \<longleftrightarrow>
     buy_order_id m = order_id bo \<and> sell_order_id m = order_id so
     \<and> match_ticker m = ticker bo \<and> execution_price m = price so
     \<and> price so \<le> price bo"

definition live_positive :: "order list \<Rightarrow> nat list \<Rightarrow> bool" where
  "live_positive xs c \<longleftrightarrow> (\<forall>i<length xs. i \<notin> set c \<longrightarrow> 0 < quantity (xs ! i))"

definition slot_start :: "order_book \<Rightarrow> match_record list \<Rightarrow> nat \<Rightarrow> crossing" where
  "slot_start b ms i =
     \<lparr>c_buy_orders = buy_orders b ! i, c_sell_orders = sell_orders b ! i,
      completed_buys = [], completed_sells = [], matches = ms\<rparr>"

definition quiet_pair :: "order list \<Rightarrow> order list \<Rightarrow> bool" where
  "quiet_pair bs ss \<longleftrightarrow>
     bs = [] \<or> ss = []
     \<or> (\<exists>bp sp. best_limit bs [] (\<lambda>x y. x > y) = Some bp
                \<and> best_limit ss [] (\<lambda>x y. x < y) = Some sp \<and> bp < sp)"

definition slot_quiet :: "order_book \<Rightarrow> nat \<Rightarrow> bool" where
  "slot_quiet b i \<longleftrightarrow>
     i < length (ticker_symbols b)
     \<and> (ticker_symbols b ! i = None
        \<or> (i < length (buy_orders b) \<and> i < length (sell_orders b)
            \<and> quiet_pair (buy_orders b ! i) (sell_orders b ! i)))"

definition from_slot :: "order_book \<Rightarrow> nat \<Rightarrow> match_record \<Rightarrow> bool" where
  "from_slot b i m \<longleftrightarrow>
     i < length (buy_orders b) \<and> i < length (sell_orders b)
     \<and> (\<exists>bo\<in>set (buy_orders b ! i). \<exists>so\<in>set (sell_orders b ! i). made_from bo so m)"

definition book_positive :: "order_book \<Rightarrow> bool" where
  "book_positive b \<longleftrightarrow> (\<forall>ord\<in>set (resting_orders b). 0 < quantity ord)"

definition unfilled :: "crossing \<Rightarrow> nat" where
  "unfilled st = remaining (c_buy_orders st) (completed_buys st)
               + remaining (c_sell_orders st) (completed_sells st)"

text \<open>One match event, in the words of the specification: the best buy and the best sell
  among the orders not marked completed are selected, their prices cross, the record
  carries the minimum of their two remaining quantities, both remaining quantities fall by
  that amount, and an order left with nothing is marked completed.\<close>

definition match_event :: "crossing \<Rightarrow> crossing \<Rightarrow> bool" where
  "match_event st st' \<longleftrightarrow>
     (\<exists>bi si q.
        find_best_order (c_buy_orders st) (completed_buys st) (\<lambda>x y. x > y) price sequence = Some bi
      \<and> find_best_order (c_sell_orders st) (completed_sells st) (\<lambda>x y. x < y) price sequence = Some si
      \<and> price (c_sell_orders st ! si) \<le> price (c_buy_orders st ! bi)
      \<and> q = min (quantity (c_buy_orders st ! bi)) (quantity (c_sell_orders st ! si))
      \<and> matches st' = matches st @
            [\<lparr>buy_order_id = order_id (c_buy_orders st ! bi),
              sell_order_id = order_id (c_sell_orders st ! si),
              match_ticker = ticker (c_buy_orders st ! bi),
              match_quantity = q,
              execution_price = price (c_sell_orders st ! si)\<rparr>]
      \<and> c_buy_orders st' = (c_buy_orders st)[bi := (c_buy_orders st ! bi)
            \<lparr>quantity := quantity (c_buy_orders st ! bi) - q\<rparr>]
      \<and> c_sell_orders st' = (c_sell_orders st)[si := (c_sell_orders st ! si)
            \<lparr>quantity := quantity (c_sell_orders st ! si) - q\<rparr>]
      \<and> completed_buys st' =
            (if quantity (c_buy_orders st ! bi) = q then completed_buys st @ [bi]
             else completed_buys st)
      \<and> completed_sells st' =
            (if quantity (c_sell_orders st ! si) = q then completed_sells st @ [si]
             else completed_sells st))"

text \<open>The events of one symbol in a pass from book \<open>b\<close> to book \<open>b'\<close>: a chain of
  match events that starts from the symbol's resting lists with nothing marked and nothing
  recorded, and whose last lists, compacted, are the symbol's resting lists in \<open>b'\<close>.\<close>

definition slot_run :: "order_book \<Rightarrow> order_book \<Rightarrow> nat \<Rightarrow> crossing list \<Rightarrow> bool" where
  "slot_run b b' i sts \<longleftrightarrow>
     sts \<noteq> []
     \<and> hd sts = \<lparr>c_buy_orders = buy_orders b ! i, c_sell_orders = sell_orders b ! i,
                 completed_buys = [], completed_sells = [], matches = []\<rparr>
     \<and> successively match_event sts
     \<and> buy_orders b' ! i = compact (c_buy_orders (last sts)) (completed_buys (last sts))
     \<and> sell_orders b' ! i = compact (c_sell_orders (last sts)) (completed_sells (last sts))"

subsection \<open>Worked examples\<close>

definition demo_book :: order_book where
  "demo_book =
     \<lparr>ticker_symbols = [Some ''A'', None],
      buy_orders = [[\<lparr>order_type = 1, ticker = ''A'', quantity = 10, price = 10,
                      order_id = 1, sequence = 1\<rparr>,
                     \<lparr>order_type = 1, ticker = ''A'', quantity = 7, price = 10,
                      order_id = 2, sequence = 2\<rparr>], []],
      sell_orders = [[\<lparr>order_type = 2, ticker = ''A'', quantity = 5, price = 9,
                       order_id = 3, sequence = 3\<rparr>,
                      \<lparr>order_type = 2, ticker = ''A'', quantity = 8, price = 10,
                       order_id = 4, sequence = 4\<rparr>], []],
      ticker_count = 1, next_order_id = 5\<rparr>"

definition demo_matches :: "match_record list" where
  "demo_matches =
     [\<lparr>buy_order_id = 1, sell_order_id = 3, match_ticker = ''A'', match_quantity = 5,
       execution_price = 9\<rparr>,
      \<lparr>buy_order_id = 1, sell_order_id = 4, match_ticker = ''A'', match_quantity = 5,
       execution_price = 10\<rparr>,
      \<lparr>buy_order_id = 2, sell_order_id = 4, match_ticker = ''A'', match_quantity = 3,
       execution_price = 10\<rparr>]"

definition demo_book_after :: order_book where
  "demo_book_after =
     \<lparr>ticker_symbols = [Some ''A'', None],
      buy_orders = [[\<lparr>order_type = 1, ticker = ''A'', quantity = 4, price = 10,
                      order_id = 2, sequence = 2\<rparr>], []],
      sell_orders = [[], []],
      ticker_count = 1, next_order_id = 5\<rparr>"

definition no_cross_book :: order_book where
  "no_cross_book =
     \<lparr>ticker_symbols = [Some ''A''],
      buy_orders = [[\<lparr>order_type = 1, ticker = ''A'', quantity = 3, price = 9,
                      order_id = 1, sequence = 1\<rparr>]],
      sell_orders = [[\<lparr>order_type = 2, ticker = ''A'', quantity = 8, price = 10,
                       order_id = 2, sequence = 2\<rparr>]],
      ticker_count = 1, next_order_id = 3\<rparr>"


section \<open>Submission: registry and counters\<close>

lemma lookup_ticker_unseen:
  "\<forall>i\<in>set is. i < length syms \<and> syms ! i \<noteq> Some t \<Longrightarrow> lookup_ticker syms t is = Inr None"
  by (induction "is") auto

lemma lookup_ticker_cases:
  assumes "\<forall>i\<in>set is. i < length syms"
  shows "(\<exists>i\<in>set is. lookup_ticker syms t is = Inr (Some i) \<and> syms ! i = Some t)
         \<or> (lookup_ticker syms t is = Inr None \<and> (\<forall>i\<in>set is. syms ! i \<noteq> Some t))"
  using assms by (induction "is") auto

lemma get_ticker_index_full:
  assumes "ticker_count b = length (ticker_symbols b)" and "Some t \<notin> set (ticker_symbols b)"
  shows "get_ticker_index b t = Inr (None, b)"
proof -
  have "lookup_ticker (ticker_symbols b) t [0..<ticker_count b] = Inr None"
    using assms by (intro lookup_ticker_unseen) (auto simp: in_set_conv_nth)
  then show ?thesis using assms by (simp add: get_ticker_index_def)
qed

lemma get_ticker_index_room:
  assumes "ticker_count b \<le> length (ticker_symbols b)"
    and "Some t \<in> set (take (ticker_count b) (ticker_symbols b))
         \<or> ticker_count b < length (ticker_symbols b)"
  shows "\<exists>idx b'. get_ticker_index b t = Inr (Some idx, b')
           \<and> idx < ticker_count b' \<and> ticker_count b' \<le> length (ticker_symbols b')
           \<and> length (ticker_symbols b') = length (ticker_symbols b)
           \<and> ticker_symbols b' ! idx = Some t
           \<and> buy_orders b' = buy_orders b \<and> sell_orders b' = sell_orders b
           \<and> next_order_id b' = next_order_id b"
proof -
  have rng: "\<forall>i\<in>set [0..<ticker_count b]. i < length (ticker_symbols b)"
    using assms(1) by auto
  from lookup_ticker_cases [OF rng, of t]
  show ?thesis
  proof
    assume "\<exists>i\<in>set [0..<ticker_count b].
              lookup_ticker (ticker_symbols b) t [0..<ticker_count b] = Inr (Some i)
              \<and> ticker_symbols b ! i = Some t"
    then show ?thesis using assms(1) by (auto simp: get_ticker_index_def)
  next
    assume none: "lookup_ticker (ticker_symbols b) t [0..<ticker_count b] = Inr None
              \<and> (\<forall>i\<in>set [0..<ticker_count b]. ticker_symbols b ! i \<noteq> Some t)"
    then have "Some t \<notin> set (take (ticker_count b) (ticker_symbols b))"
      using assms(1) by (auto simp: in_set_conv_nth)
    with assms(2) have "ticker_count b < length (ticker_symbols b)" by simp
    with none show ?thesis by (simp add: get_ticker_index_def)
  qed
qed

lemma add_order_full:
  assumes "ticker_count b = length (ticker_symbols b)" and "Some t \<notin> set (ticker_symbols b)"
  shows "add_order b order_sequence otype t qty prc
         = Inr (- 1, b\<lparr>next_order_id := next_order_id b + 1\<rparr>, order_sequence + 1)"
  using get_ticker_index_full [of "b\<lparr>next_order_id := next_order_id b + 1\<rparr>" t] assms
  by (simp add: add_order_def Let_def)

lemma get_ticker_index_next_order_id:
  "get_ticker_index b t = Inr (r, b') \<Longrightarrow> next_order_id b' = next_order_id b"
  by (auto simp: get_ticker_index_def split: sum.splits option.splits if_splits)

lemma add_order_counters:
  assumes "add_order b order_sequence otype t qty prc = Inr (r, b', seq')"
  shows "next_order_id b' = next_order_id b + 1 \<and> seq' = order_sequence + 1
         \<and> (r = - 1 \<or> r = next_order_id b)"
  using assms
  by (auto simp: add_order_def Let_def split: sum.splits option.splits if_splits
      dest!: get_ticker_index_next_order_id)

lemma get_ticker_index_orders:
  "get_ticker_index b t = Inr (r, b') \<Longrightarrow>
     buy_orders b' = buy_orders b \<and> sell_orders b' = sell_orders b"
  by (auto simp: get_ticker_index_def split: sum.splits option.splits if_splits)

lemma set_concat_append_at:
  "i < length xss \<Longrightarrow> set (concat (xss[i := xss ! i @ [x]])) = insert x (set (concat xss))"
proof -
  assume i: "i < length xss"
  then have "xss[i := xss ! i @ [x]] = take i xss @ (xss ! i @ [x]) # drop (Suc i) xss"
    by (simp add: upd_conv_take_nth_drop)
  moreover from i have "xss = take i xss @ xss ! i # drop (Suc i) xss"
    by (simp add: id_take_nth_drop [symmetric])
  ultimately have "set (concat (xss[i := xss ! i @ [x]]))
      = set (concat (take i xss)) \<union> insert x (set (xss ! i)) \<union> set (concat (drop (Suc i) xss))"
    and "set (concat xss)
      = set (concat (take i xss)) \<union> set (xss ! i) \<union> set (concat (drop (Suc i) xss))"
    by (metis concat.simps(2) concat_append set_append set_simps(2) Un_assoc append_Nil2
        list.set(1) append_Cons list.simps(15) Un_insert_right sup_bot.right_neutral)+
  then show ?thesis by auto
qed

lemma add_order_resting:
  assumes "add_order b order_sequence otype t qty prc = Inr (r, b', seq')"
  shows "set (resting_orders b') \<subseteq>
           insert \<lparr>order_type = otype, ticker = t, quantity = qty, price = prc,
                    order_id = next_order_id b, sequence = order_sequence + 1\<rparr>
             (set (resting_orders b))"
  using assms
  by (auto simp: add_order_def Let_def resting_orders_def set_concat_append_at
      simp del: set_concat split: sum.splits option.splits if_splits
      dest!: get_ticker_index_orders)

text \<open>
  Claim C1, as stated: a submission with a non-positive quantity or a non-positive price is
  rejected with an error and leaves the book as it was. \<open>add_order\<close> has no such check: on a
  fresh book of two slots a buy of quantity 0 at price -5 is accepted with order id 1, the
  ticker is registered, the order rests in slot 0 and the counter moves to 2.
\<close>

theorem add_order_accepts_nonpositive:
  "add_order (create_order_book 2) 0 BUY ''AAPL'' 0 (- 5)
   = Inr (1, \<lparr>ticker_symbols = [Some ''AAPL'', None],
              buy_orders = [[\<lparr>order_type = 1, ticker = ''AAPL'', quantity = 0, price = - 5,
                              order_id = 1, sequence = 1\<rparr>], []],
              sell_orders = [[], []], ticker_count = 1, next_order_id = 2\<rparr>, 1)"
  by (simp add: add_order_def get_ticker_index_def create_order_book_def Let_def BUY_def
      numeral_2_eq_2)

text \<open>
  Claim C1, amended: \<open>add_order\<close> does not look at the sign of the quantity or of the price.
  On a well-formed book where the ticker is registered or the registry has a free slot, a
  submission with any quantity and any price, non-positive ones included, is accepted: it
  returns the book's next order id, the ticker has a slot, the order with exactly that
  quantity and price is appended to that slot on the side chosen by the order type, the
  other side is as before, and the next order id and the sequence counter have advanced by
  one.
\<close>

theorem add_order_no_validation:
  assumes "wf_book b"
    and "Some t \<in> set (take (ticker_count b) (ticker_symbols b))
         \<or> ticker_count b < length (ticker_symbols b)"
  shows "\<exists>idx b'. add_order b order_sequence otype t qty prc
                     = Inr (next_order_id b, b', order_sequence + 1)
           \<and> next_order_id b' = next_order_id b + 1
           \<and> idx < ticker_count b' \<and> ticker_symbols b' ! idx = Some t
           \<and> idx < length (buy_orders b) \<and> idx < length (sell_orders b)
           \<and> (if otype = BUY
               then buy_orders b' = (buy_orders b)[idx := buy_orders b ! idx @
                        [\<lparr>order_type = otype, ticker = t, quantity = qty, price = prc,
                          order_id = next_order_id b, sequence = order_sequence + 1\<rparr>]]
                    \<and> sell_orders b' = sell_orders b
               else sell_orders b' = (sell_orders b)[idx := sell_orders b ! idx @
                        [\<lparr>order_type = otype, ticker = t, quantity = qty, price = prc,
                          order_id = next_order_id b, sequence = order_sequence + 1\<rparr>]]
                    \<and> buy_orders b' = buy_orders b)"
proof -
  let ?b1 = "b\<lparr>next_order_id := next_order_id b + 1\<rparr>"
  from assms have "ticker_count ?b1 \<le> length (ticker_symbols ?b1)"
    and "Some t \<in> set (take (ticker_count ?b1) (ticker_symbols ?b1))
         \<or> ticker_count ?b1 < length (ticker_symbols ?b1)"
    by (simp_all add: wf_book_def)
  from get_ticker_index_room [OF this] obtain idx b2 where
    g: "get_ticker_index ?b1 t = Inr (Some idx, b2)"
    and p: "idx < ticker_count b2" "ticker_count b2 \<le> length (ticker_symbols b2)"
      "length (ticker_symbols b2) = length (ticker_symbols ?b1)"
      "ticker_symbols b2 ! idx = Some t"
      "buy_orders b2 = buy_orders ?b1" "sell_orders b2 = sell_orders ?b1"
      "next_order_id b2 = next_order_id ?b1"
    by blast
  from p assms(1) have len: "idx < length (buy_orders b)" "idx < length (sell_orders b)"
    by (simp_all add: wf_book_def)
  show ?thesis
  proof (cases "otype = BUY")
    case True
    with g p len show ?thesis
      by (intro exI [of _ idx]) (simp add: add_order_def Let_def)
  next
    case False
    with g p len show ?thesis
      by (intro exI [of _ idx]) (simp add: add_order_def Let_def)
  qed
qed

theorem add_order_no_validation_witness:
  "wf_book (create_order_book 2)
   \<and> (Some ''AAPL'' \<in> set (take (ticker_count (create_order_book 2))
                               (ticker_symbols (create_order_book 2)))
      \<or> ticker_count (create_order_book 2) < length (ticker_symbols (create_order_book 2)))
   \<and> (\<exists>b'. add_order (create_order_book 2) 0 SELL ''AAPL'' (- 3) 0 = Inr (1, b', 1)
           \<and> next_order_id b' = 2
           \<and> sell_orders b' ! 0 = [\<lparr>order_type = SELL, ticker = ''AAPL'', quantity = - 3,
                                     price = 0, order_id = 1, sequence = 1\<rparr>])"
proof -
  have h1: "wf_book (create_order_book 2)"
    by (simp add: wf_book_def create_order_book_def)
  have h2: "Some ''AAPL'' \<in> set (take (ticker_count (create_order_book 2))
                               (ticker_symbols (create_order_book 2)))
      \<or> ticker_count (create_order_book 2) < length (ticker_symbols (create_order_book 2))"
    by (simp add: create_order_book_def)
  from add_order_no_validation [OF h1 h2, of 0 SELL "- 3" 0] obtain idx b' where
    r: "add_order (create_order_book 2) 0 SELL ''AAPL'' (- 3) 0
          = Inr (next_order_id (create_order_book 2), b', 0 + 1)"
      "next_order_id b' = next_order_id (create_order_book 2) + 1"
      "idx < ticker_count b'" "ticker_symbols b' ! idx = Some ''AAPL''"
      "sell_orders b' = (sell_orders (create_order_book 2))[idx :=
          sell_orders (create_order_book 2) ! idx @
            [\<lparr>order_type = SELL, ticker = ''AAPL'', quantity = - 3, price = 0,
              order_id = next_order_id (create_order_book 2), sequence = 0 + 1\<rparr>]]"
    by (auto simp: SELL_def BUY_def)
  have "add_order (create_order_book 2) 0 SELL ''AAPL'' (- 3) 0
        = Inr (1, \<lparr>ticker_symbols = [Some ''AAPL'', None], buy_orders = [[], []],
                   sell_orders = [[\<lparr>order_type = 2, ticker = ''AAPL'', quantity = - 3,
                                    price = 0, order_id = 1, sequence = 1\<rparr>], []],
                   ticker_count = 1, next_order_id = 2\<rparr>, 1)"
    by (simp add: add_order_def get_ticker_index_def create_order_book_def Let_def BUY_def
        SELL_def numeral_2_eq_2)
  with r(1) have "sell_orders b' ! 0 = [\<lparr>order_type = SELL, ticker = ''AAPL'', quantity = - 3,
                                     price = 0, order_id = 1, sequence = 1\<rparr>]"
    by (auto simp: SELL_def create_order_book_def)
  with r h1 h2 show ?thesis
    by (simp add: create_order_book_def)
qed

text \<open>
  Claim C2, as stated: when the registry is full, a submission for an unseen ticker fails and
  the whole book, the next-order-id counter included, is what it was. In \<open>add_order\<close> the
  counter is advanced before the ticker is looked up: on a full book of one slot whose next
  order id is 1, the rejected submission returns -1 and leaves the counter at 2.
\<close>

theorem add_order_full_moves_counter:
  "add_order \<lparr>ticker_symbols = [Some ''A''], buy_orders = [[]], sell_orders = [[]],
               ticker_count = 1, next_order_id = 1\<rparr> 0 BUY ''B'' 5 10
   = Inr (- 1, \<lparr>ticker_symbols = [Some ''A''], buy_orders = [[]], sell_orders = [[]],
               ticker_count = 1, next_order_id = 2\<rparr>, 1)"
  by (simp add: add_order_def get_ticker_index_def Let_def)

text \<open>
  Claim C2, amended: when every slot of the registry is taken and the ticker is not
  registered, \<open>add_order\<close> returns the error value -1 and the registry count, the slot
  assignments and the resting buy and sell collections are exactly what they were; the
  next-order-id counter is one more than before.
\<close>

theorem add_order_registry_full:
  assumes "ticker_count b = length (ticker_symbols b)" and "Some t \<notin> set (ticker_symbols b)"
  shows "\<exists>b' seq'. add_order b order_sequence otype t qty prc = Inr (- 1, b', seq')
           \<and> ticker_count b' = ticker_count b
           \<and> ticker_symbols b' = ticker_symbols b
           \<and> buy_orders b' = buy_orders b
           \<and> sell_orders b' = sell_orders b
           \<and> next_order_id b' = next_order_id b + 1"
  using add_order_full [OF assms] by simp

theorem add_order_registry_full_witness:
  "ticker_count \<lparr>ticker_symbols = [Some ''A''], buy_orders = [[]], sell_orders = [[]],
                 ticker_count = 1, next_order_id = 1\<rparr>
     = length (ticker_symbols \<lparr>ticker_symbols = [Some ''A''], buy_orders = [[]],
                 sell_orders = [[]], ticker_count = 1, next_order_id = 1\<rparr>)
   \<and> Some ''B'' \<notin> set (ticker_symbols \<lparr>ticker_symbols = [Some ''A''], buy_orders = [[]],
                 sell_orders = [[]], ticker_count = 1, next_order_id = 1\<rparr>)
   \<and> (\<exists>b' seq'. add_order \<lparr>ticker_symbols = [Some ''A''], buy_orders = [[]],
                    sell_orders = [[]], ticker_count = 1, next_order_id = 1\<rparr> 7 BUY ''B'' 5 10
                  = Inr (- 1, b', seq')
         \<and> ticker_count b' = 1 \<and> ticker_symbols b' = [Some ''A'']
         \<and> buy_orders b' = [[]] \<and> sell_orders b' = [[]] \<and> next_order_id b' = 2)"
  using add_order_registry_full [of "\<lparr>ticker_symbols = [Some ''A''], buy_orders = [[]],
                 sell_orders = [[]], ticker_count = 1, next_order_id = 1\<rparr>" "''B''" 7 BUY 5 10]
  by simp

text \<open>
  Claim C10: a submission rejected because the registry is full returns -1 and has advanced
  the next-order-id counter and the sequence counter by one each. The identifier it
  consumed is not issued again: whatever is submitted next either is rejected too or gets
  the identifier after it, and the counters stand two above their first values.
\<close>

theorem add_order_rejected_consumes_counters:
  assumes "ticker_count b = length (ticker_symbols b)" and "Some t \<notin> set (ticker_symbols b)"
    and "add_order b order_sequence otype t qty prc = Inr (r, b', seq')"
    and "add_order b' seq' otype2 t2 qty2 prc2 = Inr (r2, b'', seq'')"
  shows "r = - 1 \<and> next_order_id b' = next_order_id b + 1 \<and> seq' = order_sequence + 1
         \<and> (r2 = - 1 \<or> r2 = next_order_id b + 1)
         \<and> next_order_id b'' = next_order_id b + 2 \<and> seq'' = order_sequence + 2
         \<and> (\<forall>ord\<in>set (resting_orders b'').
               ord \<in> set (resting_orders b)
               \<or> order_id ord = next_order_id b + 1 \<and> sequence ord = order_sequence + 2)"
proof -
  from add_order_full [OF assms(1,2), of order_sequence otype qty prc] assms(3)
  have first: "r = - 1" "b' = b\<lparr>next_order_id := next_order_id b + 1\<rparr>"
    "seq' = order_sequence + 1"
    by simp_all
  from add_order_counters [OF assms(4)] first
  have second: "next_order_id b'' = next_order_id b + 2" "seq'' = order_sequence + 2"
    "r2 = - 1 \<or> r2 = next_order_id b + 1"
    by auto
  from first(2) have same: "resting_orders b' = resting_orders b"
    by (simp add: resting_orders_def)
  from add_order_resting [OF assms(4)] first same
  have "\<forall>ord\<in>set (resting_orders b'').
               ord \<in> set (resting_orders b)
               \<or> order_id ord = next_order_id b + 1 \<and> sequence ord = order_sequence + 2"
    by auto
  with first second show ?thesis by simp
qed

theorem add_order_rejected_consumes_counters_witness:
  "ticker_count \<lparr>ticker_symbols = [Some ''A''], buy_orders = [[]], sell_orders = [[]],
                 ticker_count = 1, next_order_id = 1\<rparr>
     = length (ticker_symbols \<lparr>ticker_symbols = [Some ''A''], buy_orders = [[]],
                 sell_orders = [[]], ticker_count = 1, next_order_id = 1\<rparr>)
   \<and> Some ''B'' \<notin> set (ticker_symbols \<lparr>ticker_symbols = [Some ''A''], buy_orders = [[]],
                 sell_orders = [[]], ticker_count = 1, next_order_id = 1\<rparr>)
   \<and> add_order \<lparr>ticker_symbols = [Some ''A''], buy_orders = [[]], sell_orders = [[]],
                 ticker_count = 1, next_order_id = 1\<rparr> 0 BUY ''B'' 5 10
     = Inr (- 1, \<lparr>ticker_symbols = [Some ''A''], buy_orders = [[]], sell_orders = [[]],
                 ticker_count = 1, next_order_id = 2\<rparr>, 1)
   \<and> add_order \<lparr>ticker_symbols = [Some ''A''], buy_orders = [[]], sell_orders = [[]],
                 ticker_count = 1, next_order_id = 2\<rparr> 1 SELL ''A'' 3 9
     = Inr (2, \<lparr>ticker_symbols = [Some ''A''], buy_orders = [[]],
                sell_orders = [[\<lparr>order_type = 2, ticker = ''A'', quantity = 3, price = 9,
                                 order_id = 2, sequence = 2\<rparr>]],
                ticker_count = 1, next_order_id = 3\<rparr>, 2)
   \<and> list_all (\<lambda>ord.
         ord \<in> set (resting_orders \<lparr>ticker_symbols = [Some ''A''], buy_orders = [[]],
                 sell_orders = [[]], ticker_count = 1, next_order_id = 1\<rparr>)
         \<or> order_id ord = 2 \<and> sequence ord = 2)
       (resting_orders \<lparr>ticker_symbols = [Some ''A''], buy_orders = [[]],
                sell_orders = [[\<lparr>order_type = 2, ticker = ''A'', quantity = 3, price = 9,
                                 order_id = 2, sequence = 2\<rparr>]],
                ticker_count = 1, next_order_id = 3\<rparr>)"
proof -
  let ?b = "\<lparr>ticker_symbols = [Some ''A''], buy_orders = [[]], sell_orders = [[]],
                 ticker_count = 1, next_order_id = 1\<rparr>"
  let ?b' = "\<lparr>ticker_symbols = [Some ''A''], buy_orders = [[]], sell_orders = [[]],
                 ticker_count = 1, next_order_id = 2\<rparr>"
  let ?b'' = "\<lparr>ticker_symbols = [Some ''A''], buy_orders = [[]],
                sell_orders = [[\<lparr>order_type = 2, ticker = ''A'', quantity = 3, price = 9,
                                 order_id = 2, sequence = 2\<rparr>]],
                ticker_count = 1, next_order_id = 3\<rparr>"
  have h1: "ticker_count ?b = length (ticker_symbols ?b)" by simp
  have h2: "Some ''B'' \<notin> set (ticker_symbols ?b)" by simp
  have h3: "add_order ?b 0 BUY ''B'' 5 10 = Inr (- 1, ?b', 1)"
    by (simp add: add_order_def get_ticker_index_def Let_def)
  have h4: "add_order ?b' 1 SELL ''A'' 3 9 = Inr (2, ?b'', 2)"
    by (simp add: add_order_def get_ticker_index_def Let_def BUY_def SELL_def)
  from add_order_rejected_consumes_counters [OF h1 h2 h3 h4] h1 h2 h3 h4
  show ?thesis by (simp add: list_all_iff)
qed

section \<open>The matching pass\<close>

lemma demo_pass: "match_orders demo_book = Inr (demo_matches, demo_book_after)"
  by code_simp

subsection \<open>Selection by price and time\<close>

lemma best_ok_step:
  assumes tot: "\<And>x y. cmp x y \<or> x = y \<or> cmp y x"
    and tr: "\<And>x y z. cmp x y \<Longrightarrow> cmp y z \<Longrightarrow> cmp x z"
    and ok: "best_ok all c cmp pi si i best"
    and nc: "i \<notin> set c"
  shows "best_ok all c cmp pi si (Suc i)
           (case best of
              None \<Rightarrow> Some (i, pi (all ! i), si (all ! i))
            | Some (best_idx, best_price, best_seq) \<Rightarrow>
                if cmp (pi (all ! i)) best_price
                   \<or> (pi (all ! i) = best_price \<and> si (all ! i) < best_seq)
                then Some (i, pi (all ! i), si (all ! i))
                else best)"
proof (cases best)
  case None
  with ok nc show ?thesis
    by (auto simp: best_ok_def less_Suc_eq)
next
  case (Some a)
  obtain k p s where a: "a = (k, p, s)" by (cases a)
  from ok Some a have k: "k < i" "k \<notin> set c" "p = pi (all ! k)" "s = si (all ! k)"
    and opt: "\<And>j. j < i \<Longrightarrow> j \<notin> set c \<Longrightarrow>
                cmp p (pi (all ! j)) \<or> (p = pi (all ! j) \<and> s \<le> si (all ! j))"
    by (auto simp: best_ok_def)
  let ?cp = "pi (all ! i)" and ?cs = "si (all ! i)"
  show ?thesis
  proof (cases "cmp ?cp p \<or> (?cp = p \<and> ?cs < s)")
    case True
    have "cmp ?cp (pi (all ! j)) \<or> (?cp = pi (all ! j) \<and> ?cs \<le> si (all ! j))"
      if "j < Suc i" "j \<notin> set c" for j
    proof (cases "j = i")
      case True
      then show ?thesis by simp
    next
      case False
      with that have "j < i" by simp
      from opt [OF this that(2)] True show ?thesis
        using tr by (metis less_imp_le order_trans)
    qed
    with True Some a nc show ?thesis
      by (simp add: best_ok_def)
  next
    case False
    have "cmp p (pi (all ! j)) \<or> (p = pi (all ! j) \<and> s \<le> si (all ! j))"
      if "j < Suc i" "j \<notin> set c" for j
    proof (cases "j = i")
      case True
      with False tot [of ?cp p] show ?thesis by auto
    next
      case False
      with that have "j < i" by simp
      from opt [OF this that(2)] show ?thesis .
    qed
    then have opt': "\<forall>j<Suc i. j \<notin> set c \<longrightarrow>
        cmp p (pi (all ! j)) \<or> (p = pi (all ! j) \<and> s \<le> si (all ! j))"
      by blast
    from False Some a have eq: "(case best of
              None \<Rightarrow> Some (i, pi (all ! i), si (all ! i))
            | Some (best_idx, best_price, best_seq) \<Rightarrow>
                if cmp (pi (all ! i)) best_price
                   \<or> (pi (all ! i) = best_price \<and> si (all ! i) < best_seq)
                then Some (i, pi (all ! i), si (all ! i))
                else best) = Some (k, p, s)"
      by simp
    from k opt' show ?thesis
      unfolding eq best_ok_def by simp
  qed
qed

lemma best_ok_skip:
  "best_ok all c cmp pi si i best \<Longrightarrow> i \<in> set c \<Longrightarrow> best_ok all c cmp pi si (Suc i) best"
  by (auto simp: best_ok_def less_Suc_eq split: option.splits)

lemma scan_best_ok:
  assumes tot: "\<And>x y. cmp x y \<or> x = y \<or> cmp y x"
    and tr: "\<And>x y z. cmp x y \<Longrightarrow> cmp y z \<Longrightarrow> cmp x z"
  shows "i \<le> length all \<Longrightarrow> best_ok all c cmp pi si i best \<Longrightarrow>
         best_ok all c cmp pi si (length all) (scan_best c cmp pi si i (drop i all) best)"
proof (induction "length all - i" arbitrary: i best)
  case 0
  then show ?case by simp
next
  case (Suc n)
  then have lt: "i < length all" by simp
  then have d: "drop i all = all ! i # drop (Suc i) all"
    by (simp add: Cons_nth_drop_Suc)
  from Suc.hyps(2) have n: "n = length all - Suc i" by simp
  show ?case
  proof (cases "i \<in> set c")
    case True
    with Suc.hyps(1) [OF n, of best] lt best_ok_skip [OF Suc.prems(2)] d show ?thesis
      by simp
  next
    case False
    from Suc.hyps(1) [OF n _ best_ok_step [OF tot tr Suc.prems(2) False]] lt d False
    show ?thesis by (simp add: Let_def)
  qed
qed

lemma buy_best_ok:
  "best_ok xs c (\<lambda>x y. x > y) pi si (length xs) (scan_best c (\<lambda>x y. x > y) pi si 0 xs None)"
proof -
  have "best_ok xs c (\<lambda>x y. x > y) pi si 0 None"
    by (simp add: best_ok_def)
  moreover have "\<And>x y::int. x > y \<or> x = y \<or> y > x"
    and "\<And>x y z::int. x > y \<Longrightarrow> y > z \<Longrightarrow> x > z"
    by auto
  ultimately show ?thesis
    using scan_best_ok [where cmp = "\<lambda>x y. x > y" and i = 0 and all = xs] by simp
qed

lemma sell_best_ok:
  "best_ok xs c (\<lambda>x y. x < y) pi si (length xs) (scan_best c (\<lambda>x y. x < y) pi si 0 xs None)"
proof -
  have "best_ok xs c (\<lambda>x y. x < y) pi si 0 None"
    by (simp add: best_ok_def)
  moreover have "\<And>x y::int. x < y \<or> x = y \<or> y < x"
    and "\<And>x y z::int. x < y \<Longrightarrow> y < z \<Longrightarrow> x < z"
    by auto
  ultimately show ?thesis
    using scan_best_ok [where cmp = "\<lambda>x y. x < y" and i = 0 and all = xs] by simp
qed



subsection \<open>Reasoning about the loop\<close>

lemma cross_body_cases:
  assumes "cross_body st = Some (c, st')"
  obtains bi si where
    "find_best_order (c_buy_orders st) (completed_buys st) (\<lambda>x y. x > y) price sequence = Some bi"
    "find_best_order (c_sell_orders st) (completed_sells st) (\<lambda>x y. x < y) price sequence = Some si"
    "bi < length (c_buy_orders st)" "bi \<notin> set (completed_buys st)"
    "si < length (c_sell_orders st)" "si \<notin> set (completed_sells st)"
    "if price (c_sell_orders st ! si) \<le> price (c_buy_orders st ! bi)
     then c \<and> st' = execute_match st bi si else \<not> c \<and> st' = st"
proof -
  from assms obtain bi si where
    bi: "find_best_order (c_buy_orders st) (completed_buys st) (\<lambda>x y. x > y) price sequence = Some bi"
    and si: "find_best_order (c_sell_orders st) (completed_sells st) (\<lambda>x y. x < y) price sequence = Some si"
    by (auto simp: cross_body_def split: option.splits)
  moreover note find_best_order_range [OF bi] find_best_order_range [OF si]
  moreover from assms bi si
  have "if price (c_sell_orders st ! si) \<le> price (c_buy_orders st ! bi)
     then c \<and> st' = execute_match st bi si else \<not> c \<and> st' = st"
    by (auto simp: cross_body_def split: if_splits)
  ultimately show thesis using that by blast
qed

text \<open>Whatever every crossing keeps, the loop keeps.\<close>

lemma crossing_loop_rule:
  assumes "P st"
    and step: "\<And>st bi si. P st \<Longrightarrow>
      find_best_order (c_buy_orders st) (completed_buys st) (\<lambda>x y. x > y) price sequence = Some bi \<Longrightarrow>
      find_best_order (c_sell_orders st) (completed_sells st) (\<lambda>x y. x < y) price sequence = Some si \<Longrightarrow>
      price (c_sell_orders st ! si) \<le> price (c_buy_orders st ! bi) \<Longrightarrow>
      P (execute_match st bi si)"
  shows "P (crossing_loop c st)"
  using assms(1)
proof (induction c st rule: crossing_loop.induct)
  case (1 c st)
  show ?case
  proof (cases "c \<and> c_buy_orders st \<noteq> [] \<and> c_sell_orders st \<noteq> []")
    case False
    with "1.prems" show ?thesis by (subst crossing_loop.simps) auto
  next
    case True
    show ?thesis
    proof (cases "cross_body st")
      case None
      with True "1.prems" show ?thesis by (subst crossing_loop.simps) simp
    next
      case (Some a)
      obtain c' st' where a: "a = (c', st')" by (cases a)
      from Some a have cb: "cross_body st = Some (c', st')" by simp
      have "P st'"
        using cb "1.prems" step by (elim cross_body_cases) (auto split: if_splits)
      from "1.IH" [OF True Some a [symmetric] this] True Some a
      show ?thesis by (subst crossing_loop.simps) simp
    qed
  qed
qed

lemma crossing_loop_settled:
  "(\<not> c \<longrightarrow> settled st) \<Longrightarrow> settled (crossing_loop c st)"
proof (induction c st rule: crossing_loop.induct)
  case (1 c st)
  show ?case
  proof (cases "c \<and> c_buy_orders st \<noteq> [] \<and> c_sell_orders st \<noteq> []")
    case False
    with "1.prems" show ?thesis
      by (subst crossing_loop.simps) (auto simp: settled_def)
  next
    case True
    show ?thesis
    proof (cases "cross_body st")
      case None
      with True show ?thesis by (subst crossing_loop.simps) (simp add: settled_def)
    next
      case (Some a)
      obtain c' st' where a: "a = (c', st')" by (cases a)
      from Some a have cb: "cross_body st = Some (c', st')" by simp
      from cb obtain bi si where
        "if price (c_sell_orders st ! si) \<le> price (c_buy_orders st ! bi)
         then c' \<and> st' = execute_match st bi si else \<not> c' \<and> st' = st"
        by (elim cross_body_cases)
      with cb have "\<not> c' \<longrightarrow> settled st'"
        by (auto simp: settled_def split: if_splits)
      from "1.IH" [OF True Some a [symmetric] this] True Some a
      show ?thesis by (subst crossing_loop.simps) simp
    qed
  qed
qed

subsection \<open>Compaction\<close>

lemma compact_none_completed: "compact xs [] = xs"
  by (simp add: compact_def)

lemma in_set_compact:
  "x \<in> set (compact xs c) \<longleftrightarrow> (\<exists>i<length xs. i \<notin> set c \<and> xs ! i = x)"
  by (auto simp: compact_def in_set_enumerate_eq image_iff)

lemma compact_empty_iff: "compact xs c = [] \<longleftrightarrow> (\<forall>i<length xs. i \<in> set c)"
proof -
  have "compact xs c = [] \<longleftrightarrow> set (compact xs c) = {}" by simp
  also have "\<dots> \<longleftrightarrow> (\<forall>x. x \<notin> set (compact xs c))" by auto
  also have "\<dots> \<longleftrightarrow> (\<forall>i<length xs. i \<in> set c)"
    unfolding in_set_compact by auto
  finally show ?thesis .
qed

text \<open>The price and the sequence number of the best order are those of the best order of
  the compacted list: the scan passes over completed positions as if they were absent.\<close>

lemma scan_best_compact:
  "map_option snd best = map_option snd best' \<Longrightarrow>
   map_option snd (scan_best c cmp pi si n xs best)
   = map_option snd (scan_best [] cmp pi si k
       (map snd (filter (\<lambda>(i, ord). i \<notin> set c) (enumerate n xs))) best')"
proof (induction xs arbitrary: n k best best')
  case Nil
  then show ?case by simp
next
  case (Cons x xs)
  show ?case
  proof (cases "n \<in> set c")
    case True
    with Cons.IH [OF Cons.prems, of "Suc n" k] show ?thesis by simp
  next
    case False
    let ?upd = "\<lambda>i best. (case best of
                None \<Rightarrow> Some (i, pi x, si x)
              | Some (best_idx, best_price, best_seq) \<Rightarrow>
                  if cmp (pi x) best_price \<or> (pi x = best_price \<and> si x < best_seq)
                  then Some (i, pi x, si x)
                  else best)"
    from Cons.prems have "map_option snd (?upd n best) = map_option snd (?upd k best')"
      by (cases best; cases best') auto
    from Cons.IH [OF this, of "Suc n" "Suc k"] False show ?thesis
      by (simp add: Let_def)
  qed
qed

lemma best_limit_compact: "best_limit (compact xs c) [] cmp = best_limit xs c cmp"
proof -
  have "map_option snd (scan_best c cmp price sequence 0 xs None)
        = map_option snd (scan_best [] cmp price sequence 0 (compact xs c) None)"
    unfolding compact_def by (rule scan_best_compact) simp
  then have "map_option fst (map_option snd (scan_best c cmp price sequence 0 xs None))
        = map_option fst (map_option snd (scan_best [] cmp price sequence 0 (compact xs c) None))"
    by simp
  then show ?thesis
    by (simp add: best_limit_def option.map_comp)
qed

lemma best_limit_None: "best_limit xs c cmp = None \<longleftrightarrow> find_best_order xs c cmp price sequence = None"
  by (simp add: best_limit_def find_best_order_def)

lemma best_limit_buy:
  "find_best_order xs c (\<lambda>x y. x > y) price sequence = Some i \<Longrightarrow>
   best_limit xs c (\<lambda>x y. x > y) = Some (price (xs ! i))"
  using buy_best_ok [of xs c price sequence]
  by (auto simp: find_best_order_def best_limit_def best_ok_def)

lemma best_limit_sell:
  "find_best_order xs c (\<lambda>x y. x < y) price sequence = Some i \<Longrightarrow>
   best_limit xs c (\<lambda>x y. x < y) = Some (price (xs ! i))"
  using sell_best_ok [of xs c price sequence]
  by (auto simp: find_best_order_def best_limit_def best_ok_def)

lemma find_best_order_buy_None:
  "find_best_order xs c (\<lambda>x y. x > y) price sequence = None \<longleftrightarrow> compact xs c = []"
  using buy_best_ok [of xs c price sequence]
  by (auto simp: find_best_order_def best_ok_def compact_empty_iff split: option.splits)

lemma find_best_order_sell_None:
  "find_best_order xs c (\<lambda>x y. x < y) price sequence = None \<longleftrightarrow> compact xs c = []"
  using sell_best_ok [of xs c price sequence]
  by (auto simp: find_best_order_def best_ok_def compact_empty_iff split: option.splits)

text \<open>What the loop body does is decided by the two best prices.\<close>

lemma cross_body_by_price:
  "cross_body st = None \<longleftrightarrow>
     best_limit (c_buy_orders st) (completed_buys st) (\<lambda>x y. x > y) = None
     \<or> best_limit (c_sell_orders st) (completed_sells st) (\<lambda>x y. x < y) = None"
  "cross_body st = Some (False, st) \<longleftrightarrow>
     (\<exists>bp sp. best_limit (c_buy_orders st) (completed_buys st) (\<lambda>x y. x > y) = Some bp
        \<and> best_limit (c_sell_orders st) (completed_sells st) (\<lambda>x y. x < y) = Some sp
        \<and> bp < sp)"
proof -
  show "cross_body st = None \<longleftrightarrow>
     best_limit (c_buy_orders st) (completed_buys st) (\<lambda>x y. x > y) = None
     \<or> best_limit (c_sell_orders st) (completed_sells st) (\<lambda>x y. x < y) = None"
    by (auto simp: cross_body_def best_limit_None split: option.splits)
  show "cross_body st = Some (False, st) \<longleftrightarrow>
     (\<exists>bp sp. best_limit (c_buy_orders st) (completed_buys st) (\<lambda>x y. x > y) = Some bp
        \<and> best_limit (c_sell_orders st) (completed_sells st) (\<lambda>x y. x < y) = Some sp
        \<and> bp < sp)"
  proof (cases "find_best_order (c_buy_orders st) (completed_buys st) (\<lambda>x y. x > y) price sequence")
    case None
    then show ?thesis
      using best_limit_None [of "c_buy_orders st" "completed_buys st" "\<lambda>x y. x > y"]
      by (simp add: cross_body_def)
  next
    case bi: (Some bi)
    show ?thesis
    proof (cases "find_best_order (c_sell_orders st) (completed_sells st) (\<lambda>x y. x < y) price sequence")
      case None
      then show ?thesis
        using best_limit_None [of "c_sell_orders st" "completed_sells st" "\<lambda>x y. x < y"] bi
        by (simp add: cross_body_def)
    next
      case si: (Some si)
      from bi si best_limit_buy [OF bi] best_limit_sell [OF si] show ?thesis
        by (auto simp: cross_body_def)
    qed
  qed
qed

subsection \<open>What the loop keeps\<close>

lemma blank_fields:
  assumes "blank a = blank b"
  shows "price a = price b" "order_id a = order_id b" "ticker a = ticker b"
    "sequence a = sequence b" "order_type a = order_type b"
proof -
  have "price (blank a) = price (blank b)" "order_id (blank a) = order_id (blank b)"
    "ticker (blank a) = ticker (blank b)" "sequence (blank a) = sequence (blank b)"
    "order_type (blank a) = order_type (blank b)"
    using assms by simp_all
  then show "price a = price b" "order_id a = order_id b" "ticker a = ticker b"
    "sequence a = sequence b" "order_type a = order_type b"
    by (simp_all add: blank_def)
qed

lemma blank_quantity [simp]: "blank (ord\<lparr>quantity := q\<rparr>) = blank ord"
  by (simp add: blank_def)

lemma map_blank_update:
  "i < length xs \<Longrightarrow> blank y = blank (xs ! i) \<Longrightarrow> map blank (xs[i := y]) = map blank xs"
  by (simp add: map_update list_update_same_conv)

lemma map_blank_nth:
  "map blank xs = map blank ys \<Longrightarrow> i < length xs \<Longrightarrow> blank (xs ! i) = blank (ys ! i)"
  by (metis length_map nth_map)

lemma made_from_blank:
  "blank a = blank a' \<Longrightarrow> blank b = blank b' \<Longrightarrow> made_from a b m = made_from a' b' m"
  using blank_fields [of a a'] blank_fields [of b b'] by (simp add: made_from_def)

lemma execute_match_blank:
  assumes "bi < length (c_buy_orders st)" "si < length (c_sell_orders st)"
  shows "map blank (c_buy_orders (execute_match st bi si)) = map blank (c_buy_orders st)"
    and "map blank (c_sell_orders (execute_match st bi si)) = map blank (c_sell_orders st)"
  using assms by (simp_all add: execute_match_def Let_def map_blank_update)

lemma execute_match_matches:
  "price (c_sell_orders st ! si) \<le> price (c_buy_orders st ! bi) \<Longrightarrow>
   \<exists>m. matches (execute_match st bi si) = matches st @ [m]
       \<and> made_from (c_buy_orders st ! bi) (c_sell_orders st ! si) m
       \<and> match_quantity m = min (quantity (c_buy_orders st ! bi)) (quantity (c_sell_orders st ! si))"
  by (simp add: execute_match_def Let_def made_from_def)

lemma crossing_loop_provenance:
  fixes st c
  defines "st' \<equiv> crossing_loop c st"
  shows "map blank (c_buy_orders st') = map blank (c_buy_orders st)"
    and "map blank (c_sell_orders st') = map blank (c_sell_orders st)"
    and "\<forall>m\<in>set (matches st'). m \<in> set (matches st)
           \<or> (\<exists>i<length (c_buy_orders st). \<exists>j<length (c_sell_orders st).
                 made_from (c_buy_orders st ! i) (c_sell_orders st ! j) m)"
proof -
  let ?P = "\<lambda>s. map blank (c_buy_orders s) = map blank (c_buy_orders st)
     \<and> map blank (c_sell_orders s) = map blank (c_sell_orders st)
     \<and> (\<forall>m\<in>set (matches s). m \<in> set (matches st)
           \<or> (\<exists>i<length (c_buy_orders st). \<exists>j<length (c_sell_orders st).
                 made_from (c_buy_orders st ! i) (c_sell_orders st ! j) m))"
  have "?P (crossing_loop c st)"
  proof (rule crossing_loop_rule)
    show "?P st" by simp
  next
    fix s :: crossing and bi si
    assume P: "?P s"
      and bi: "find_best_order (c_buy_orders s) (completed_buys s) (\<lambda>x y. x > y) price sequence = Some bi"
      and si: "find_best_order (c_sell_orders s) (completed_sells s) (\<lambda>x y. x < y) price sequence = Some si"
      and crossing: "price (c_sell_orders s ! si) \<le> price (c_buy_orders s ! bi)"
    from find_best_order_range [OF bi] find_best_order_range [OF si]
    have r: "bi < length (c_buy_orders s)" "si < length (c_sell_orders s)" by simp_all
    from P have len: "length (c_buy_orders s) = length (c_buy_orders st)"
      "length (c_sell_orders s) = length (c_sell_orders st)"
      by (metis length_map)+
    from execute_match_matches [OF crossing] obtain m where
      m: "matches (execute_match s bi si) = matches s @ [m]"
        "made_from (c_buy_orders s ! bi) (c_sell_orders s ! si) m"
      by blast
    from P r have "blank (c_buy_orders s ! bi) = blank (c_buy_orders st ! bi)"
      "blank (c_sell_orders s ! si) = blank (c_sell_orders st ! si)"
      by (simp_all add: map_blank_nth)
    from made_from_blank [OF this] m(2)
    have "made_from (c_buy_orders st ! bi) (c_sell_orders st ! si) m" by simp
    with r len have "\<exists>i<length (c_buy_orders st). \<exists>j<length (c_sell_orders st).
                 made_from (c_buy_orders st ! i) (c_sell_orders st ! j) m"
      by auto
    with P m(1) execute_match_blank [OF r] show "?P (execute_match s bi si)"
      by auto
  qed
  then show "map blank (c_buy_orders st') = map blank (c_buy_orders st)"
    and "map blank (c_sell_orders st') = map blank (c_sell_orders st)"
    and "\<forall>m\<in>set (matches st'). m \<in> set (matches st)
           \<or> (\<exists>i<length (c_buy_orders st). \<exists>j<length (c_sell_orders st).
                 made_from (c_buy_orders st ! i) (c_sell_orders st ! j) m)"
    by (simp_all add: st'_def)
qed

lemma execute_match_positive:
  assumes "live_positive (c_buy_orders st) (completed_buys st)"
    and "live_positive (c_sell_orders st) (completed_sells st)"
    and "bi < length (c_buy_orders st)" "bi \<notin> set (completed_buys st)"
    and "si < length (c_sell_orders st)" "si \<notin> set (completed_sells st)"
  shows "live_positive (c_buy_orders (execute_match st bi si)) (completed_buys (execute_match st bi si))
       \<and> live_positive (c_sell_orders (execute_match st bi si)) (completed_sells (execute_match st bi si))"
proof -
  from assms have "0 < quantity (c_buy_orders st ! bi)" "0 < quantity (c_sell_orders st ! si)"
    by (simp_all add: live_positive_def)
  with assms show ?thesis
    by (auto simp: live_positive_def execute_match_def Let_def nth_list_update min_def)
qed

lemma crossing_loop_positive:
  assumes "live_positive (c_buy_orders st) (completed_buys st)"
    and "live_positive (c_sell_orders st) (completed_sells st)"
  shows "live_positive (c_buy_orders (crossing_loop c st)) (completed_buys (crossing_loop c st))
       \<and> live_positive (c_sell_orders (crossing_loop c st)) (completed_sells (crossing_loop c st))"
proof (rule crossing_loop_rule)
  show "live_positive (c_buy_orders st) (completed_buys st)
       \<and> live_positive (c_sell_orders st) (completed_sells st)"
    using assms by simp
next
  fix s :: crossing and bi si
  assume "live_positive (c_buy_orders s) (completed_buys s)
       \<and> live_positive (c_sell_orders s) (completed_sells s)"
    and bi: "find_best_order (c_buy_orders s) (completed_buys s) (\<lambda>x y. x > y) price sequence = Some bi"
    and si: "find_best_order (c_sell_orders s) (completed_sells s) (\<lambda>x y. x < y) price sequence = Some si"
  with find_best_order_range [OF bi] find_best_order_range [OF si]
  show "live_positive (c_buy_orders (execute_match s bi si)) (completed_buys (execute_match s bi si))
       \<and> live_positive (c_sell_orders (execute_match s bi si)) (completed_sells (execute_match s bi si))"
    by (intro execute_match_positive) simp_all
qed

lemma live_positive_compact:
  "live_positive xs c \<Longrightarrow> \<forall>ord\<in>set (compact xs c). 0 < quantity ord"
  by (auto simp: live_positive_def in_set_compact)

subsection \<open>One slot\<close>

lemma compact_if: "(if c \<noteq> [] then compact xs c else xs) = compact xs c"
  by (simp add: compact_none_completed)

lemma match_slot_cross:
  assumes "i < length (ticker_symbols b)" "ticker_symbols b ! i \<noteq> None"
    "i < length (buy_orders b)" "i < length (sell_orders b)"
    "buy_orders b ! i \<noteq> []" "sell_orders b ! i \<noteq> []"
  shows "match_slot (b, ms) i =
    Inr (b\<lparr>buy_orders := (buy_orders b)[i :=
              compact (c_buy_orders (crossing_loop True (slot_start b ms i)))
                      (completed_buys (crossing_loop True (slot_start b ms i)))],
            sell_orders := (sell_orders b)[i :=
              compact (c_sell_orders (crossing_loop True (slot_start b ms i)))
                      (completed_sells (crossing_loop True (slot_start b ms i)))]\<rparr>,
         matches (crossing_loop True (slot_start b ms i)))"
  using assms
  by (auto simp: match_slot_def Let_def slot_start_def [symmetric] compact_if)

lemma match_slot_skip:
  assumes "i < length (ticker_symbols b)"
    and "ticker_symbols b ! i = None
       \<or> (i < length (buy_orders b) \<and> i < length (sell_orders b)
           \<and> (buy_orders b ! i = [] \<or> sell_orders b ! i = []))"
  shows "match_slot (b, ms) i = Inr (b, ms)"
  using assms by (auto simp: match_slot_def)

lemma match_slot_cases:
  assumes "match_slot (b, ms) i = Inr (b', ms')"
  obtains (skip) "b' = b" "ms' = ms" "i < length (ticker_symbols b)"
      "ticker_symbols b ! i = None
       \<or> (i < length (buy_orders b) \<and> i < length (sell_orders b)
           \<and> (buy_orders b ! i = [] \<or> sell_orders b ! i = []))"
  | (cross) st where "i < length (ticker_symbols b)" "ticker_symbols b ! i \<noteq> None"
      "i < length (buy_orders b)" "i < length (sell_orders b)"
      "buy_orders b ! i \<noteq> []" "sell_orders b ! i \<noteq> []"
      "st = crossing_loop True (slot_start b ms i)"
      "b' = b\<lparr>buy_orders := (buy_orders b)[i := compact (c_buy_orders st) (completed_buys st)],
               sell_orders := (sell_orders b)[i := compact (c_sell_orders st) (completed_sells st)]\<rparr>"
      "ms' = matches st"
proof (cases "ticker_symbols b ! i = None \<or> buy_orders b ! i = [] \<or> sell_orders b ! i = []")
  case True
  with assms show ?thesis
    by (intro skip) (auto simp: match_slot_def split: if_splits)
next
  case False
  from assms False have rng: "i < length (ticker_symbols b)" "i < length (buy_orders b)"
    "i < length (sell_orders b)"
    by (auto simp: match_slot_def split: if_splits)
  from False rng have "match_slot (b, ms) i =
    Inr (b\<lparr>buy_orders := (buy_orders b)[i :=
              compact (c_buy_orders (crossing_loop True (slot_start b ms i)))
                      (completed_buys (crossing_loop True (slot_start b ms i)))],
            sell_orders := (sell_orders b)[i :=
              compact (c_sell_orders (crossing_loop True (slot_start b ms i)))
                      (completed_sells (crossing_loop True (slot_start b ms i)))]\<rparr>,
         matches (crossing_loop True (slot_start b ms i)))"
    by (intro match_slot_cross) simp_all
  with assms False rng show ?thesis
    by (intro cross [of "crossing_loop True (slot_start b ms i)"]) simp_all
qed

lemma match_slot_frame:
  assumes "match_slot (b, ms) i = Inr (b', ms')"
  shows "ticker_symbols b' = ticker_symbols b" "ticker_count b' = ticker_count b"
    "next_order_id b' = next_order_id b"
    "length (buy_orders b') = length (buy_orders b)"
    "length (sell_orders b') = length (sell_orders b)"
    "i < length (ticker_symbols b)"
    "\<And>j. j \<noteq> i \<Longrightarrow> buy_orders b' ! j = buy_orders b ! j"
    "\<And>j. j \<noteq> i \<Longrightarrow> sell_orders b' ! j = sell_orders b ! j"
  using assms by (auto elim!: match_slot_cases)

subsection \<open>Slots a pass leaves alone\<close>

lemma compact_Nil [simp]: "compact [] c = []"
  by (simp add: compact_def)

lemma crossing_loop_no_cross:
  assumes "cross_body st = Some (False, st)"
  shows "crossing_loop c st = st"
proof -
  have "crossing_loop False st = st" by (subst crossing_loop.simps) simp
  with assms show ?thesis by (subst crossing_loop.simps) simp
qed

lemma slot_quiet_identity:
  assumes "slot_quiet b i"
  shows "match_slot (b, ms) i = Inr (b, ms)"
proof (cases "ticker_symbols b ! i = None
       \<or> (i < length (buy_orders b) \<and> i < length (sell_orders b)
           \<and> (buy_orders b ! i = [] \<or> sell_orders b ! i = []))")
  case True
  with assms show ?thesis by (intro match_slot_skip) (simp_all add: slot_quiet_def)
next
  case False
  with assms have rng: "i < length (ticker_symbols b)" "ticker_symbols b ! i \<noteq> None"
    "i < length (buy_orders b)" "i < length (sell_orders b)"
    "buy_orders b ! i \<noteq> []" "sell_orders b ! i \<noteq> []"
    and q: "quiet_pair (buy_orders b ! i) (sell_orders b ! i)"
    by (auto simp: slot_quiet_def)
  from q rng have "cross_body (slot_start b ms i) = Some (False, slot_start b ms i)"
    unfolding cross_body_by_price(2) by (simp add: quiet_pair_def slot_start_def)
  then have "crossing_loop True (slot_start b ms i) = slot_start b ms i"
    by (rule crossing_loop_no_cross)
  with match_slot_cross [OF rng, of ms] show ?thesis
    by (simp add: slot_start_def compact_none_completed)
qed

lemma settled_quiet_pair:
  assumes "settled st"
  shows "quiet_pair (compact (c_buy_orders st) (completed_buys st))
                    (compact (c_sell_orders st) (completed_sells st))"
proof -
  consider "c_buy_orders st = [] \<or> c_sell_orders st = []"
    | "cross_body st = None" | "cross_body st = Some (False, st)"
    using assms by (auto simp: settled_def)
  then show ?thesis
  proof cases
    case 1
    then show ?thesis by (auto simp: quiet_pair_def)
  next
    case 2
    then have "compact (c_buy_orders st) (completed_buys st) = []
               \<or> compact (c_sell_orders st) (completed_sells st) = []"
      unfolding cross_body_by_price(1) best_limit_None
        find_best_order_buy_None find_best_order_sell_None .
    then show ?thesis by (auto simp: quiet_pair_def)
  next
    case 3
    then show ?thesis
      unfolding cross_body_by_price(2) quiet_pair_def best_limit_compact by blast
  qed
qed

lemma match_slot_quiet:
  assumes "match_slot (b, ms) i = Inr (b', ms')"
  shows "slot_quiet b' i"
  using assms
proof (cases rule: match_slot_cases)
  case skip
  then show ?thesis by (auto simp: slot_quiet_def quiet_pair_def)
next
  case (cross st)
  have "settled st"
    unfolding cross(7) by (rule crossing_loop_settled) simp
  from settled_quiet_pair [OF this] cross show ?thesis
    by (simp add: slot_quiet_def)
qed

lemma slot_quiet_frame:
  assumes "match_slot (b, ms) i = Inr (b', ms')" and "j \<noteq> i"
  shows "slot_quiet b' j \<longleftrightarrow> slot_quiet b j"
  using match_slot_frame [OF assms(1)] assms(2)
  by (simp add: slot_quiet_def)

lemma match_slots_frame:
  assumes "match_slots is (b, ms) = Inr (b', ms')"
  shows "ticker_symbols b' = ticker_symbols b \<and> ticker_count b' = ticker_count b
    \<and> next_order_id b' = next_order_id b
    \<and> length (buy_orders b') = length (buy_orders b)
    \<and> length (sell_orders b') = length (sell_orders b)
    \<and> (\<forall>j. j \<notin> set is \<longrightarrow> buy_orders b' ! j = buy_orders b ! j
                           \<and> sell_orders b' ! j = sell_orders b ! j)"
  using assms
proof (induction "is" arbitrary: b ms)
  case Nil
  then show ?case by simp
next
  case (Cons i "is")
  from Cons.prems obtain b1 ms1 where
    s1: "match_slot (b, ms) i = Inr (b1, ms1)" and s2: "match_slots is (b1, ms1) = Inr (b', ms')"
    by (auto split: sum.splits)
  from Cons.IH [OF s2] match_slot_frame [OF s1] show ?case by simp
qed

lemma match_slots_quiet:
  assumes "match_slots is (b, ms) = Inr (b', ms')" and "distinct is"
  shows "(\<forall>j. j \<notin> set is \<longrightarrow> slot_quiet b' j = slot_quiet b j) \<and> (\<forall>i\<in>set is. slot_quiet b' i)"
  using assms
proof (induction "is" arbitrary: b ms)
  case Nil
  then show ?case by simp
next
  case (Cons i "is")
  from Cons.prems obtain b1 ms1 where
    s1: "match_slot (b, ms) i = Inr (b1, ms1)" and s2: "match_slots is (b1, ms1) = Inr (b', ms')"
    by (auto split: sum.splits)
  from Cons.prems have d: "distinct is" "i \<notin> set is" by simp_all
  from Cons.IH [OF s2 d(1)] have
    keep: "\<And>j. j \<notin> set is \<Longrightarrow> slot_quiet b' j = slot_quiet b1 j"
    and rest: "\<forall>i\<in>set is. slot_quiet b' i"
    by simp_all
  from keep [OF d(2)] match_slot_quiet [OF s1] have "slot_quiet b' i" by simp
  moreover have "slot_quiet b' j = slot_quiet b j" if "j \<notin> set (i # is)" for j
    using that keep [of j] slot_quiet_frame [OF s1, of j] by simp
  ultimately show ?case using rest by simp
qed

lemma match_slots_quiet_identity:
  "\<forall>i\<in>set is. slot_quiet b i \<Longrightarrow> match_slots is (b, ms) = Inr (b, ms)"
  by (induction "is") (simp_all add: slot_quiet_identity)

text \<open>
  Claim C7: when a matching pass has returned, a second pass on the book it left, with no
  submission in between, returns the empty list of matches (and leaves the book as it is).
\<close>

theorem match_orders_twice:
  assumes "match_orders b = Inr (ms, b')"
  shows "match_orders b' = Inr ([], b')"
proof -
  from assms have s: "match_slots [0..<ticker_count b] (b, []) = Inr (b', ms)"
    by (auto simp: match_orders_def split: sum.splits)
  from match_slots_frame [OF s] have tc: "ticker_count b' = ticker_count b" by simp
  from match_slots_quiet [OF s] have "\<forall>i\<in>set [0..<ticker_count b']. slot_quiet b' i"
    by (simp add: tc)
  from match_slots_quiet_identity [OF this, of "[]"] show ?thesis
    by (simp add: match_orders_def)
qed

theorem match_orders_twice_witness:
  "match_orders demo_book = Inr (demo_matches, demo_book_after)
   \<and> match_orders demo_book_after = Inr ([], demo_book_after)"
  using match_orders_twice [OF demo_pass] demo_pass by simp

subsection \<open>Where match records come from\<close>

lemma match_slot_provenance:
  assumes "match_slot (b, ms) i = Inr (b', ms')" and "m \<in> set ms'"
  shows "m \<in> set ms \<or> from_slot b i m"
  using assms(1)
proof (cases rule: match_slot_cases)
  case skip
  with assms(2) show ?thesis by simp
next
  case (cross st)
  from crossing_loop_provenance(3) [of True "slot_start b ms i"] cross(7,9) assms(2)
  have "m \<in> set ms
        \<or> (\<exists>k<length (buy_orders b ! i). \<exists>j<length (sell_orders b ! i).
              made_from (buy_orders b ! i ! k) (sell_orders b ! i ! j) m)"
    by (auto simp: slot_start_def)
  with cross(3,4) show ?thesis
    by (auto simp: from_slot_def)
qed

lemma from_slot_frame:
  assumes "match_slot (b, ms) i = Inr (b', ms')" and "j \<noteq> i"
  shows "from_slot b' j m \<longleftrightarrow> from_slot b j m"
  using match_slot_frame [OF assms(1)] assms(2)
  by (simp add: from_slot_def)

lemma match_slots_provenance:
  assumes "match_slots is (b, ms) = Inr (b', ms')" and "distinct is" and "m \<in> set ms'"
  shows "m \<in> set ms \<or> (\<exists>j\<in>set is. \<not> slot_quiet b j \<and> from_slot b j m)"
  using assms
proof (induction "is" arbitrary: b ms)
  case Nil
  then show ?case by simp
next
  case (Cons i "is")
  from Cons.prems obtain b1 ms1 where
    s1: "match_slot (b, ms) i = Inr (b1, ms1)" and s2: "match_slots is (b1, ms1) = Inr (b', ms')"
    by (auto split: sum.splits)
  from Cons.prems have d: "distinct is" "i \<notin> set is" by simp_all
  from Cons.IH [OF s2 d(1) Cons.prems(3)]
  consider "m \<in> set ms1" | j where "j \<in> set is" "\<not> slot_quiet b1 j" "from_slot b1 j m"
    by blast
  then show ?case
  proof cases
    case 1
    show ?thesis
    proof (cases "slot_quiet b i")
      case True
      from slot_quiet_identity [OF True, of ms] s1 1 show ?thesis by simp
    next
      case False
      with match_slot_provenance [OF s1 1] show ?thesis by auto
    qed
  next
    case 2
    with d have "j \<noteq> i" by auto
    from slot_quiet_frame [OF s1 this] from_slot_frame [OF s1 this, of m] 2
    show ?thesis by auto
  qed
qed

lemma match_slots_quiet_untouched:
  assumes "match_slots is (b, ms) = Inr (b', ms')" and "slot_quiet b i"
  shows "buy_orders b' ! i = buy_orders b ! i \<and> sell_orders b' ! i = sell_orders b ! i
         \<and> slot_quiet b' i"
  using assms
proof (induction "is" arbitrary: b ms)
  case Nil
  then show ?case by simp
next
  case (Cons k "is")
  from Cons.prems obtain b1 ms1 where
    s1: "match_slot (b, ms) k = Inr (b1, ms1)" and s2: "match_slots is (b1, ms1) = Inr (b', ms')"
    by (auto split: sum.splits)
  show ?case
  proof (cases "k = i")
    case True
    with slot_quiet_identity [OF Cons.prems(2), of ms] s1 have "b1 = b" by simp
    with Cons.IH [OF s2] Cons.prems(2) show ?thesis by simp
  next
    case False
    then have ne: "i \<noteq> k" by simp
    from slot_quiet_frame [OF s1 ne] Cons.prems(2) have "slot_quiet b1 i" by simp
    from Cons.IH [OF s2 this] match_slot_frame(7,8) [OF s1 ne] show ?thesis by simp
  qed
qed

text \<open>
  Claim C3: every match record a matching pass returns carries the identifiers of a buy
  order and a sell order resting, before the pass, in the slot of one registered symbol,
  whose prices cross, and its execution price is the limit price of that sell order.
\<close>

theorem match_orders_execution_price:
  assumes "match_orders b = Inr (ms, b')" and "m \<in> set ms"
  shows "\<exists>i<ticker_count b. i < length (buy_orders b) \<and> i < length (sell_orders b)
           \<and> (\<exists>bo\<in>set (buy_orders b ! i). \<exists>so\<in>set (sell_orders b ! i).
                 buy_order_id m = order_id bo \<and> sell_order_id m = order_id so
                 \<and> match_ticker m = ticker bo \<and> price so \<le> price bo
                 \<and> execution_price m = price so)"
proof -
  from assms(1) have s: "match_slots [0..<ticker_count b] (b, []) = Inr (b', ms)"
    by (auto simp: match_orders_def split: sum.splits)
  from match_slots_provenance [OF s _ assms(2)] obtain j where
    j: "j < ticker_count b" "from_slot b j m"
    by auto
  then obtain bo so where "j < length (buy_orders b)" "j < length (sell_orders b)"
    "bo \<in> set (buy_orders b ! j)" "so \<in> set (sell_orders b ! j)"
    "buy_order_id m = order_id bo" "sell_order_id m = order_id so"
    "match_ticker m = ticker bo" "price so \<le> price bo" "execution_price m = price so"
    unfolding from_slot_def made_from_def by blast
  with j(1) show ?thesis by blast
qed

theorem match_orders_execution_price_witness:
  "match_orders demo_book = Inr (demo_matches, demo_book_after)
   \<and> \<lparr>buy_order_id = 1, sell_order_id = 4, match_ticker = ''A'', match_quantity = 5,
       execution_price = 10\<rparr> \<in> set demo_matches
   \<and> (\<exists>i<ticker_count demo_book. i < length (buy_orders demo_book)
         \<and> i < length (sell_orders demo_book)
         \<and> (\<exists>bo\<in>set (buy_orders demo_book ! i). \<exists>so\<in>set (sell_orders demo_book ! i).
               1 = order_id bo \<and> 4 = order_id so \<and> ''A'' = ticker bo
               \<and> price so \<le> price bo \<and> 10 = price so))"
proof -
  have m: "\<lparr>buy_order_id = 1, sell_order_id = 4, match_ticker = ''A'', match_quantity = 5,
       execution_price = 10\<rparr> \<in> set demo_matches"
    by (simp add: demo_matches_def)
  from match_orders_execution_price [OF demo_pass m] demo_pass m show ?thesis
    by simp
qed

lemma no_cross_slot_quiet:
  assumes "i < length (ticker_symbols b)" "i < length (buy_orders b)" "i < length (sell_orders b)"
    and "find_best_order (buy_orders b ! i) [] (\<lambda>x y. x > y) price sequence = Some bi"
    and "find_best_order (sell_orders b ! i) [] (\<lambda>x y. x < y) price sequence = Some si"
    and "price (buy_orders b ! i ! bi) < price (sell_orders b ! i ! si)"
  shows "slot_quiet b i"
  using assms best_limit_buy [OF assms(4)] best_limit_sell [OF assms(5)]
  by (simp add: slot_quiet_def quiet_pair_def)

text \<open>
  Claim C6: when, for a registered symbol of a well-formed book, the limit price of the best
  resting buy is strictly less than the limit price of the best resting sell, a matching
  pass leaves the buy and sell collections of that symbol exactly as they were, the pass's
  step for that symbol adds nothing to the list of matches and changes nothing, and every
  record the pass returns comes from the orders of another symbol.
\<close>

theorem no_cross_untouched:
  assumes "wf_book b" and "i < ticker_count b"
    and "find_best_order (buy_orders b ! i) [] (\<lambda>x y. x > y) price sequence = Some bi"
    and "find_best_order (sell_orders b ! i) [] (\<lambda>x y. x < y) price sequence = Some si"
    and "price (buy_orders b ! i ! bi) < price (sell_orders b ! i ! si)"
    and "match_orders b = Inr (ms, b')"
  shows "buy_orders b' ! i = buy_orders b ! i \<and> sell_orders b' ! i = sell_orders b ! i
         \<and> match_slot (b, ms0) i = Inr (b, ms0)
         \<and> (\<forall>m\<in>set ms. \<exists>j<ticker_count b. j \<noteq> i
               \<and> (\<exists>bo\<in>set (buy_orders b ! j). \<exists>so\<in>set (sell_orders b ! j).
                     buy_order_id m = order_id bo \<and> sell_order_id m = order_id so
                     \<and> match_ticker m = ticker bo \<and> execution_price m = price so))"
proof -
  from assms(1,2) have rng: "i < length (ticker_symbols b)" "i < length (buy_orders b)"
    "i < length (sell_orders b)"
    by (simp_all add: wf_book_def)
  from no_cross_slot_quiet [OF rng assms(3,4,5)] have q: "slot_quiet b i" .
  from assms(6) have s: "match_slots [0..<ticker_count b] (b, []) = Inr (b', ms)"
    by (auto simp: match_orders_def split: sum.splits)
  have "\<exists>j<ticker_count b. j \<noteq> i
               \<and> (\<exists>bo\<in>set (buy_orders b ! j). \<exists>so\<in>set (sell_orders b ! j).
                     buy_order_id m = order_id bo \<and> sell_order_id m = order_id so
                     \<and> match_ticker m = ticker bo \<and> execution_price m = price so)"
    if "m \<in> set ms" for m
  proof -
    from match_slots_provenance [OF s _ that] obtain j where
      j: "j < ticker_count b" "\<not> slot_quiet b j" "from_slot b j m"
      by auto
    then obtain bo so where
      "bo \<in> set (buy_orders b ! j)" "so \<in> set (sell_orders b ! j)"
      "buy_order_id m = order_id bo" "sell_order_id m = order_id so"
      "match_ticker m = ticker bo" "execution_price m = price so"
      unfolding from_slot_def made_from_def by blast
    moreover from j(2) q have "j \<noteq> i" by auto
    ultimately show ?thesis using j(1) by blast
  qed
  with match_slots_quiet_untouched [OF s q] slot_quiet_identity [OF q, of ms0]
  show ?thesis by blast
qed

theorem no_cross_untouched_witness:
  "wf_book no_cross_book \<and> 0 < ticker_count no_cross_book
   \<and> find_best_order (buy_orders no_cross_book ! 0) [] (\<lambda>x y. x > y) price sequence = Some 0
   \<and> find_best_order (sell_orders no_cross_book ! 0) [] (\<lambda>x y. x < y) price sequence = Some 0
   \<and> price (buy_orders no_cross_book ! 0 ! 0) < price (sell_orders no_cross_book ! 0 ! 0)
   \<and> match_orders no_cross_book = Inr ([], no_cross_book)
   \<and> match_slot (no_cross_book, []) 0 = Inr (no_cross_book, [])"
proof -
  have h1: "wf_book no_cross_book" and h2: "0 < ticker_count no_cross_book"
    by (simp_all add: wf_book_def no_cross_book_def)
  have h3: "find_best_order (buy_orders no_cross_book ! 0) [] (\<lambda>x y. x > y) price sequence = Some 0"
    and h4: "find_best_order (sell_orders no_cross_book ! 0) [] (\<lambda>x y. x < y) price sequence = Some 0"
    by (simp_all add: no_cross_book_def find_best_order_def)
  have h5: "price (buy_orders no_cross_book ! 0 ! 0) < price (sell_orders no_cross_book ! 0 ! 0)"
    by (simp add: no_cross_book_def)
  have h6: "match_orders no_cross_book = Inr ([], no_cross_book)"
    by code_simp
  from no_cross_untouched [OF h1 h2 h3 h4 h5 h6, of "[]"] h1 h2 h3 h4 h5 h6 show ?thesis
    by simp
qed

subsection \<open>Positive quantities\<close>

lemma set_concat_update:
  "set (concat (xss[i := ys])) \<subseteq> set ys \<union> set (concat xss)"
proof
  fix x assume "x \<in> set (concat (xss[i := ys]))"
  then obtain zs where "zs \<in> set (xss[i := ys])" "x \<in> set zs" by auto
  with set_update_subset_insert [of xss i ys] show "x \<in> set ys \<union> set (concat xss)"
    by auto
qed

lemma nth_subset_concat:
  assumes "i < length xss"
  shows "set (xss ! i) \<subseteq> set (concat xss)"
proof
  fix x assume "x \<in> set (xss ! i)"
  moreover from assms have "xss ! i \<in> set xss" by (rule nth_mem)
  ultimately show "x \<in> set (concat xss)" by auto
qed

lemma live_positive_all: "\<forall>ord\<in>set xs. 0 < quantity ord \<Longrightarrow> live_positive xs c"
  by (simp add: live_positive_def)

lemma add_order_positive:
  assumes "book_positive b" and "0 < qty"
    and "add_order b order_sequence otype t qty prc = Inr (r, b', seq')"
  shows "book_positive b'"
  using add_order_resting [OF assms(3)] assms(1,2)
  by (auto simp: book_positive_def)

lemma match_slot_positive:
  assumes "match_slot (b, ms) i = Inr (b', ms')" and "book_positive b"
  shows "book_positive b'"
  using assms(1)
proof (cases rule: match_slot_cases)
  case skip
  with assms(2) show ?thesis by simp
next
  case (cross st)
  from nth_subset_concat [OF cross(3)] nth_subset_concat [OF cross(4)] assms(2)
  have "live_positive (c_buy_orders (slot_start b ms i)) (completed_buys (slot_start b ms i))"
    and "live_positive (c_sell_orders (slot_start b ms i)) (completed_sells (slot_start b ms i))"
    by (auto intro!: live_positive_all simp: slot_start_def book_positive_def resting_orders_def)
  from crossing_loop_positive [OF this, of True] cross(7)
  have "live_positive (c_buy_orders st) (completed_buys st)"
    and "live_positive (c_sell_orders st) (completed_sells st)"
    by simp_all
  from live_positive_compact [OF this(1)] live_positive_compact [OF this(2)]
  have new: "\<forall>ord\<in>set (compact (c_buy_orders st) (completed_buys st)). 0 < quantity ord"
    "\<forall>ord\<in>set (compact (c_sell_orders st) (completed_sells st)). 0 < quantity ord" .
  have "set (resting_orders b') \<subseteq>
          set (compact (c_buy_orders st) (completed_buys st))
          \<union> set (compact (c_sell_orders st) (completed_sells st))
          \<union> set (resting_orders b)"
    using set_concat_update [of "buy_orders b" i "compact (c_buy_orders st) (completed_buys st)"]
      set_concat_update [of "sell_orders b" i "compact (c_sell_orders st) (completed_sells st)"]
    unfolding cross(8) resting_orders_def by auto
  with new assms(2) show ?thesis
    unfolding book_positive_def by blast
qed

lemma match_slots_positive:
  "match_slots is (b, ms) = Inr (b', ms') \<Longrightarrow> book_positive b \<Longrightarrow> book_positive b'"
proof (induction "is" arbitrary: b ms)
  case Nil
  then show ?case by simp
next
  case (Cons i "is")
  from Cons.prems obtain b1 ms1 where
    s1: "match_slot (b, ms) i = Inr (b1, ms1)" and s2: "match_slots is (b1, ms1) = Inr (b', ms')"
    by (auto split: sum.splits)
  from Cons.IH [OF s2 match_slot_positive [OF s1 Cons.prems(2)]] show ?case .
qed

text \<open>
  Claim C8, as stated: every submission keeps all resting quantities positive. A submission
  of quantity 0 to a new book is accepted and rests with quantity 0.
\<close>

theorem zero_quantity_rests:
  "book_positive (create_order_book 1)
   \<and> add_order (create_order_book 1) 0 BUY ''A'' 0 10
     = Inr (1, \<lparr>ticker_symbols = [Some ''A''],
                buy_orders = [[\<lparr>order_type = 1, ticker = ''A'', quantity = 0, price = 10,
                                order_id = 1, sequence = 1\<rparr>]],
                sell_orders = [[]], ticker_count = 1, next_order_id = 2\<rparr>, 1)
   \<and> \<not> book_positive \<lparr>ticker_symbols = [Some ''A''],
                buy_orders = [[\<lparr>order_type = 1, ticker = ''A'', quantity = 0, price = 10,
                                order_id = 1, sequence = 1\<rparr>]],
                sell_orders = [[]], ticker_count = 1, next_order_id = 2\<rparr>"
  by (simp add: book_positive_def resting_orders_def add_order_def get_ticker_index_def
      create_order_book_def Let_def BUY_def)

text \<open>
  Claim C8, amended: that every resting order has a remaining quantity greater than zero
  holds of a new book, is kept by every submission whose quantity is positive
  (\<open>add_order\<close> itself does not check the quantity) and is kept by every matching pass: an
  order whose quantity a pass brings to zero is gone from its collection when the pass
  returns.
\<close>

theorem positive_quantity_invariant:
  "book_positive (create_order_book n)
   \<and> (book_positive b \<and> 0 < qty
        \<and> add_order b order_sequence otype t qty prc = Inr (r, b', seq')
        \<longrightarrow> book_positive b')
   \<and> (book_positive b \<and> match_orders b = Inr (ms, b'') \<longrightarrow> book_positive b'')"
proof -
  have "book_positive (create_order_book n)"
    by (simp add: book_positive_def resting_orders_def create_order_book_def)
  moreover have "book_positive b''" if "book_positive b" "match_orders b = Inr (ms, b'')"
  proof -
    from that(2) have "match_slots [0..<ticker_count b] (b, []) = Inr (b'', ms)"
      by (auto simp: match_orders_def split: sum.splits)
    from match_slots_positive [OF this that(1)] show ?thesis .
  qed
  ultimately show ?thesis
    using add_order_positive by blast
qed

theorem positive_quantity_invariant_witness:
  "book_positive (create_order_book 2)
   \<and> book_positive demo_book \<and> (0::int) < 6
   \<and> (\<exists>b'. add_order demo_book 4 SELL ''A'' 6 11 = Inr (5, b', 5) \<and> book_positive b')
   \<and> match_orders demo_book = Inr (demo_matches, demo_book_after)
   \<and> book_positive demo_book_after"
proof -
  have p: "book_positive demo_book"
    by (simp add: book_positive_def resting_orders_def demo_book_def)
  obtain b' where a: "add_order demo_book 4 SELL ''A'' 6 11 = Inr (5, b', 5)"
    by (simp add: add_order_def get_ticker_index_def demo_book_def Let_def BUY_def SELL_def)
  from positive_quantity_invariant
         [of 2 demo_book 6 4 SELL "''A''" 11 5 b' 5 demo_matches demo_book_after]
    p a demo_pass
  show ?thesis by auto
qed

subsection \<open>The pass returns\<close>

lemma execute_match_unfilled:
  assumes "find_best_order (c_buy_orders st) (completed_buys st) (\<lambda>x y. x > y) price sequence = Some bi"
    and "find_best_order (c_sell_orders st) (completed_sells st) (\<lambda>x y. x < y) price sequence = Some si"
    and "price (c_sell_orders st ! si) \<le> price (c_buy_orders st ! bi)"
  shows "unfilled (execute_match st bi si) < unfilled st"
proof -
  from assms have "cross_body st = Some (True, execute_match st bi si)"
    by (simp add: cross_body_def)
  from cross_body_measure [OF this] show ?thesis
    by (simp add: loop_measure_def unfilled_def)
qed

lemma crossing_loop_count:
  "length (matches (crossing_loop c st)) + unfilled (crossing_loop c st)
   \<le> length (matches st) + unfilled st"
proof (rule crossing_loop_rule)
  show "length (matches st) + unfilled st \<le> length (matches st) + unfilled st" by simp
next
  fix s :: crossing and bi si
  assume le: "length (matches s) + unfilled s \<le> length (matches st) + unfilled st"
    and bi: "find_best_order (c_buy_orders s) (completed_buys s) (\<lambda>x y. x > y) price sequence = Some bi"
    and si: "find_best_order (c_sell_orders s) (completed_sells s) (\<lambda>x y. x < y) price sequence = Some si"
    and crossing: "price (c_sell_orders s ! si) \<le> price (c_buy_orders s ! bi)"
  from execute_match_matches [OF crossing]
  have "length (matches (execute_match s bi si)) = length (matches s) + 1" by auto
  with execute_match_unfilled [OF bi si crossing] le
  show "length (matches (execute_match s bi si)) + unfilled (execute_match s bi si)
        \<le> length (matches st) + unfilled st"
    by simp
qed

lemma match_slot_count:
  assumes "match_slot (b, ms) i = Inr (b', ms')"
  shows "length ms' \<le> length ms + (length (buy_orders b ! i) + length (sell_orders b ! i))"
  using assms
proof (cases rule: match_slot_cases)
  case skip
  then show ?thesis by simp
next
  case (cross st)
  from crossing_loop_count [of True "slot_start b ms i"] cross(7,9) show ?thesis
    by (simp add: unfilled_def remaining_def slot_start_def)
qed

lemma match_slots_count:
  assumes "match_slots is (b, ms) = Inr (b', ms')" and "distinct is"
  shows "length ms' \<le> length ms
           + sum_list (map (\<lambda>i. length (buy_orders b ! i) + length (sell_orders b ! i)) is)"
  using assms
proof (induction "is" arbitrary: b ms)
  case Nil
  then show ?case by simp
next
  case (Cons i "is")
  from Cons.prems obtain b1 ms1 where
    s1: "match_slot (b, ms) i = Inr (b1, ms1)" and s2: "match_slots is (b1, ms1) = Inr (b', ms')"
    by (auto split: sum.splits)
  from Cons.prems have d: "distinct is" "i \<notin> set is" by simp_all
  have "length (buy_orders b1 ! j) + length (sell_orders b1 ! j)
        = length (buy_orders b ! j) + length (sell_orders b ! j)" if "j \<in> set is" for j
  proof -
    from that d(2) have "j \<noteq> i" by auto
    from match_slot_frame(7,8) [OF s1 this] show ?thesis by simp
  qed
  then have "map (\<lambda>j. length (buy_orders b1 ! j) + length (sell_orders b1 ! j)) is
        = map (\<lambda>j. length (buy_orders b ! j) + length (sell_orders b ! j)) is"
    by simp
  with Cons.IH [OF s2 d(1)] match_slot_count [OF s1] show ?case by simp
qed

lemma sum_lengths_prefix:
  "n \<le> length xss \<Longrightarrow> sum_list (map (\<lambda>i. length (xss ! i)) [0..<n]) = length (concat (take n xss))"
  by (induction n) (simp_all add: take_Suc_conv_app_nth)

lemma sum_lengths_le:
  assumes "n \<le> length xss"
  shows "sum_list (map (\<lambda>i. length (xss ! i)) [0..<n]) \<le> length (concat xss)"
proof -
  have "concat xss = concat (take n xss) @ concat (drop n xss)"
    by (metis append_take_drop_id concat_append)
  then have "length (concat (take n xss)) \<le> length (concat xss)"
    by (metis le_add1 length_append)
  with sum_lengths_prefix [OF assms] show ?thesis by simp
qed

lemma match_slot_total:
  "i < length (ticker_symbols b) \<Longrightarrow> i < length (buy_orders b) \<Longrightarrow> i < length (sell_orders b)
   \<Longrightarrow> \<exists>b' ms'. match_slot (b, ms) i = Inr (b', ms')"
  by (auto simp: match_slot_def Let_def)

lemma match_slot_wf:
  "match_slot (b, ms) i = Inr (b', ms') \<Longrightarrow> wf_book b \<Longrightarrow> wf_book b'"
  using match_slot_frame [of b ms i b' ms'] by (simp add: wf_book_def)

lemma match_slots_total:
  "wf_book b \<Longrightarrow> \<forall>i\<in>set is. i < ticker_count b \<Longrightarrow>
   \<exists>b' ms'. match_slots is (b, ms) = Inr (b', ms') \<and> wf_book b'"
proof (induction "is" arbitrary: b ms)
  case Nil
  then show ?case by simp
next
  case (Cons i "is")
  from Cons.prems have "i < length (ticker_symbols b)" "i < length (buy_orders b)"
    "i < length (sell_orders b)"
    by (simp_all add: wf_book_def)
  from match_slot_total [OF this, of ms] obtain b1 ms1 where
    s1: "match_slot (b, ms) i = Inr (b1, ms1)" by blast
  from match_slot_frame(2) [OF s1] Cons.prems(2)
  have "\<forall>i\<in>set is. i < ticker_count b1" by simp
  from Cons.IH [OF match_slot_wf [OF s1 Cons.prems(1)] this, of ms1] s1 show ?case
    by simp
qed

text \<open>
  Claim C9: a matching pass returns. The crossing loop is a total function: each crossing
  marks a position completed that was not, so the number of unmarked positions is a measure
  of it. On every well-formed book the pass returns the matches and a well-formed book, and
  it has recorded at most as many matches as there were resting orders.
\<close>

theorem match_orders_terminates:
  assumes "wf_book b"
  shows "\<exists>ms b'. match_orders b = Inr (ms, b') \<and> wf_book b'
           \<and> length ms \<le> length (resting_orders b)"
proof -
  from match_slots_total [OF assms, of "[0..<ticker_count b]" "[]"] obtain b' ms where
    s: "match_slots [0..<ticker_count b] (b, []) = Inr (b', ms)" and wf: "wf_book b'"
    by auto
  from match_slots_count [OF s]
  have "length ms \<le> sum_list (map (\<lambda>i. length (buy_orders b ! i) + length (sell_orders b ! i))
                                 [0..<ticker_count b])"
    by simp
  also have "\<dots> = sum_list (map (\<lambda>i. length (buy_orders b ! i)) [0..<ticker_count b])
                + sum_list (map (\<lambda>i. length (sell_orders b ! i)) [0..<ticker_count b])"
    by (simp add: sum_list_addf)
  also from assms have "\<dots> \<le> length (concat (buy_orders b)) + length (concat (sell_orders b))"
    by (intro add_mono sum_lengths_le) (simp_all add: wf_book_def)
  finally have "length ms \<le> length (resting_orders b)"
    by (simp add: resting_orders_def)
  with s wf show ?thesis
    by (simp add: match_orders_def)
qed

theorem match_orders_terminates_witness:
  "wf_book demo_book
   \<and> (\<exists>ms b'. match_orders demo_book = Inr (ms, b') \<and> wf_book b'
         \<and> length ms \<le> length (resting_orders demo_book))
   \<and> length demo_matches = 3 \<and> length (resting_orders demo_book) = 4"
proof -
  have wf: "wf_book demo_book"
    by (simp add: wf_book_def demo_book_def)
  from match_orders_terminates [OF wf] wf show ?thesis
    by (simp add: demo_matches_def resting_orders_def demo_book_def)
qed

subsection \<open>The match events of a pass\<close>

lemma match_event_execute:
  assumes "find_best_order (c_buy_orders st) (completed_buys st) (\<lambda>x y. x > y) price sequence = Some bi"
    and "find_best_order (c_sell_orders st) (completed_sells st) (\<lambda>x y. x < y) price sequence = Some si"
    and "price (c_sell_orders st ! si) \<le> price (c_buy_orders st ! bi)"
  shows "match_event st (execute_match st bi si)"
  unfolding match_event_def
  using assms
  by (intro exI [of _ bi] exI [of _ si]
        exI [of _ "min (quantity (c_buy_orders st ! bi)) (quantity (c_sell_orders st ! si))"])
     (simp add: execute_match_def Let_def)

lemma crossing_loop_run:
  "\<exists>sts. sts \<noteq> [] \<and> successively match_event sts
        \<and> hd sts = st\<lparr>matches := []\<rparr>
        \<and> c_buy_orders (last sts) = c_buy_orders (crossing_loop c st)
        \<and> c_sell_orders (last sts) = c_sell_orders (crossing_loop c st)
        \<and> completed_buys (last sts) = completed_buys (crossing_loop c st)
        \<and> completed_sells (last sts) = completed_sells (crossing_loop c st)
        \<and> matches (crossing_loop c st) = matches st @ matches (last sts)"
proof (rule crossing_loop_rule)
  show "\<exists>sts. sts \<noteq> [] \<and> successively match_event sts
        \<and> hd sts = st\<lparr>matches := []\<rparr>
        \<and> c_buy_orders (last sts) = c_buy_orders st
        \<and> c_sell_orders (last sts) = c_sell_orders st
        \<and> completed_buys (last sts) = completed_buys st
        \<and> completed_sells (last sts) = completed_sells st
        \<and> matches st = matches st @ matches (last sts)"
    by (intro exI [of _ "[st\<lparr>matches := []\<rparr>]"]) simp
next
  fix s :: crossing and bi si
  assume "\<exists>sts. sts \<noteq> [] \<and> successively match_event sts
        \<and> hd sts = st\<lparr>matches := []\<rparr>
        \<and> c_buy_orders (last sts) = c_buy_orders s
        \<and> c_sell_orders (last sts) = c_sell_orders s
        \<and> completed_buys (last sts) = completed_buys s
        \<and> completed_sells (last sts) = completed_sells s
        \<and> matches s = matches st @ matches (last sts)"
  then obtain sts where sts: "sts \<noteq> []" "successively match_event sts"
    "hd sts = st\<lparr>matches := []\<rparr>"
    and same: "c_buy_orders (last sts) = c_buy_orders s"
      "c_sell_orders (last sts) = c_sell_orders s"
      "completed_buys (last sts) = completed_buys s"
      "completed_sells (last sts) = completed_sells s"
    and ms: "matches s = matches st @ matches (last sts)"
    by blast
  assume bi: "find_best_order (c_buy_orders s) (completed_buys s) (\<lambda>x y. x > y) price sequence = Some bi"
    and si: "find_best_order (c_sell_orders s) (completed_sells s) (\<lambda>x y. x < y) price sequence = Some si"
    and crossing: "price (c_sell_orders s ! si) \<le> price (c_buy_orders s ! bi)"
  let ?t = "last sts"
  let ?t' = "execute_match ?t bi si"
  from bi si crossing same have ev: "match_event ?t ?t'"
    by (intro match_event_execute) simp_all
  with sts have "successively match_event (sts @ [?t'])"
    by (simp add: successively_append_iff)
  moreover from sts have "hd (sts @ [?t']) = st\<lparr>matches := []\<rparr>" by simp
  moreover from same ms have
    "c_buy_orders ?t' = c_buy_orders (execute_match s bi si)"
    "c_sell_orders ?t' = c_sell_orders (execute_match s bi si)"
    "completed_buys ?t' = completed_buys (execute_match s bi si)"
    "completed_sells ?t' = completed_sells (execute_match s bi si)"
    "matches (execute_match s bi si) = matches st @ matches ?t'"
    by (simp_all add: execute_match_def Let_def)
  ultimately show "\<exists>sts. sts \<noteq> [] \<and> successively match_event sts
        \<and> hd sts = st\<lparr>matches := []\<rparr>
        \<and> c_buy_orders (last sts) = c_buy_orders (execute_match s bi si)
        \<and> c_sell_orders (last sts) = c_sell_orders (execute_match s bi si)
        \<and> completed_buys (last sts) = completed_buys (execute_match s bi si)
        \<and> completed_sells (last sts) = completed_sells (execute_match s bi si)
        \<and> matches (execute_match s bi si) = matches st @ matches (last sts)"
    by (intro exI [of _ "sts @ [?t']"]) simp
qed

lemma match_slot_run:
  assumes "match_slot (b, ms) i = Inr (b', ms')"
  shows "\<exists>sts. slot_run b b' i sts \<and> ms' = ms @ matches (last sts)"
  using assms
proof (cases rule: match_slot_cases)
  case skip
  let ?s = "\<lparr>c_buy_orders = buy_orders b ! i, c_sell_orders = sell_orders b ! i,
             completed_buys = [], completed_sells = [], matches = []\<rparr>"
  from skip have "slot_run b b' i [?s] \<and> ms' = ms @ matches (last [?s])"
    by (simp add: slot_run_def compact_none_completed)
  then show ?thesis by blast
next
  case (cross st)
  from crossing_loop_run [of "slot_start b ms i" True] cross(7) obtain sts where
    sts: "sts \<noteq> []" "successively match_event sts"
      "hd sts = (slot_start b ms i)\<lparr>matches := []\<rparr>"
    and same: "c_buy_orders (last sts) = c_buy_orders st"
      "c_sell_orders (last sts) = c_sell_orders st"
      "completed_buys (last sts) = completed_buys st"
      "completed_sells (last sts) = completed_sells st"
    and ms: "matches st = matches (slot_start b ms i) @ matches (last sts)"
    by auto
  from sts same cross(3,4,8) have "slot_run b b' i sts"
    by (simp add: slot_run_def slot_start_def)
  moreover from ms cross(9) have "ms' = ms @ matches (last sts)"
    by (simp add: slot_start_def)
  ultimately show ?thesis by blast
qed

lemma slot_run_frame:
  assumes "buy_orders b1 ! j = buy_orders b ! j" "sell_orders b1 ! j = sell_orders b ! j"
  shows "slot_run b1 b' j sts \<longleftrightarrow> slot_run b b' j sts"
  using assms by (simp add: slot_run_def)

lemma slot_run_later:
  assumes "buy_orders b2 ! j = buy_orders b1 ! j" "sell_orders b2 ! j = sell_orders b1 ! j"
  shows "slot_run b b2 j sts \<longleftrightarrow> slot_run b b1 j sts"
  using assms by (simp add: slot_run_def)

lemma match_slots_runs:
  assumes "match_slots is (b, ms) = Inr (b', ms')" and "distinct is"
  shows "\<exists>runs. list_all2 (slot_run b b') is runs
           \<and> ms' = ms @ concat (map (\<lambda>sts. matches (last sts)) runs)"
  using assms
proof (induction "is" arbitrary: b ms)
  case Nil
  then show ?case by simp
next
  case (Cons i "is")
  from Cons.prems obtain b1 ms1 where
    s1: "match_slot (b, ms) i = Inr (b1, ms1)" and s2: "match_slots is (b1, ms1) = Inr (b', ms')"
    by (auto split: sum.splits)
  from Cons.prems have d: "distinct is" "i \<notin> set is" by simp_all
  from match_slot_run [OF s1] obtain sts where
    r1: "slot_run b b1 i sts" and m1: "ms1 = ms @ matches (last sts)" by blast
  from Cons.IH [OF s2 d(1)] obtain runs where
    r2: "list_all2 (slot_run b1 b') is runs"
    and m2: "ms' = ms1 @ concat (map (\<lambda>sts. matches (last sts)) runs)" by blast
  from match_slots_frame [OF s2] d(2)
  have "buy_orders b' ! i = buy_orders b1 ! i" "sell_orders b' ! i = sell_orders b1 ! i"
    by simp_all
  from slot_run_later [OF this] r1 have h: "slot_run b b' i sts" by simp
  have "slot_run b b' j rs" if "j \<in> set is" "rs \<in> set runs" "slot_run b1 b' j rs" for j rs
  proof -
    from that(1) d(2) have "j \<noteq> i" by auto
    from slot_run_frame [OF match_slot_frame(7,8) [OF s1 this]] that(3) show ?thesis by simp
  qed
  with r2 have "list_all2 (slot_run b b') is runs"
    by (rule list.rel_mono_strong)
  with h m1 m2 have "list_all2 (slot_run b b') (i # is) (sts # runs)
           \<and> ms' = ms @ concat (map (\<lambda>sts. matches (last sts)) (sts # runs))"
    by simp
  then show ?case by blast
qed

text \<open>
  Claim C4: every match event of a matching pass records the minimum of the remaining
  quantities of its buy order and its sell order as they stand at that event, and reduces
  both by exactly that amount. A pass that returns is, for each registered slot, a chain of
  such events that starts from the slot's resting lists; the records it returns are
  exactly the records of these events, slot after slot, in the order of the events; and
  each slot's resting lists after the pass are the last lists of its chain without the
  orders marked completed.
\<close>

theorem match_orders_events:
  assumes "match_orders b = Inr (ms, b')"
  shows "\<exists>runs. length runs = ticker_count b
           \<and> ms = concat (map (\<lambda>sts. matches (last sts)) runs)
           \<and> (\<forall>i<ticker_count b.
                 runs ! i \<noteq> []
               \<and> hd (runs ! i) = \<lparr>c_buy_orders = buy_orders b ! i,
                                   c_sell_orders = sell_orders b ! i,
                                   completed_buys = [], completed_sells = [], matches = []\<rparr>
               \<and> successively match_event (runs ! i)
               \<and> buy_orders b' ! i = compact (c_buy_orders (last (runs ! i)))
                                              (completed_buys (last (runs ! i)))
               \<and> sell_orders b' ! i = compact (c_sell_orders (last (runs ! i)))
                                               (completed_sells (last (runs ! i))))"
proof -
  from assms have s: "match_slots [0..<ticker_count b] (b, []) = Inr (b', ms)"
    by (auto simp: match_orders_def split: sum.splits)
  from match_slots_runs [OF s] obtain runs where
    r: "list_all2 (slot_run b b') [0..<ticker_count b] runs"
    and m: "ms = concat (map (\<lambda>sts. matches (last sts)) runs)"
    by auto
  from r have len: "length runs = ticker_count b"
    by (auto dest: list_all2_lengthD)
  have "slot_run b b' i (runs ! i)" if "i < ticker_count b" for i
    using list_all2_nthD [OF r, of i] that by simp
  then have "\<forall>i<ticker_count b. slot_run b b' i (runs ! i)" by simp
  with len m show ?thesis
    by (intro exI [of _ runs]) (simp add: slot_run_def)
qed

theorem match_orders_events_witness:
  "match_orders demo_book = Inr (demo_matches, demo_book_after)
   \<and> (\<exists>runs. length runs = ticker_count demo_book
           \<and> demo_matches = concat (map (\<lambda>sts. matches (last sts)) runs)
           \<and> (\<forall>i<ticker_count demo_book.
                 runs ! i \<noteq> []
               \<and> hd (runs ! i) = \<lparr>c_buy_orders = buy_orders demo_book ! i,
                                   c_sell_orders = sell_orders demo_book ! i,
                                   completed_buys = [], completed_sells = [], matches = []\<rparr>
               \<and> successively match_event (runs ! i)
               \<and> buy_orders demo_book_after ! i
                   = compact (c_buy_orders (last (runs ! i))) (completed_buys (last (runs ! i)))
               \<and> sell_orders demo_book_after ! i
                   = compact (c_sell_orders (last (runs ! i))) (completed_sells (last (runs ! i)))))
   \<and> map quantity (buy_orders demo_book ! 0) = [10, 7]
   \<and> map quantity (sell_orders demo_book ! 0) = [5, 8]
   \<and> map match_quantity demo_matches = [5, 5, 3]
   \<and> map quantity (buy_orders demo_book_after ! 0) = [4]
   \<and> sell_orders demo_book_after ! 0 = []"
proof -
  note e = match_orders_events [OF demo_pass]
  have c: "map quantity (buy_orders demo_book ! 0) = [10, 7]"
    "map quantity (sell_orders demo_book ! 0) = [5, 8]"
    "map match_quantity demo_matches = [5, 5, 3]"
    "map quantity (buy_orders demo_book_after ! 0) = [4]"
    "sell_orders demo_book_after ! 0 = []"
    by (simp_all add: demo_book_def demo_matches_def demo_book_after_def)
  from demo_pass e c show ?thesis by blast
qed

end
